theory Spec2Isabelle
  imports Complex_Main "HOL-Library.AList"
begin

section \<open>Data model of \<open>marketplace.py\<close>\<close>

text \<open>
  The manager keeps one Python dictionary \<open>self.data\<close> with the two keys
  \<open>listings\<close> and \<open>conversations\<close>; both map generated ids to records.
  Python dictionaries keep insertion order and the code iterates over them, so each is
  an association list: \<open>map_of\<close> is the lookup, \<open>AList.update\<close> is the assignment
  \<open>d[k] = v\<close> (in place for a known key, at the end for a new one) and
  \<open>AList.map_entry\<close> is the in-place mutation of the record stored under a key.
\<close>

text \<open>
  The values of a listing's fields come from the request body, so they are arbitrary
  JSON values. Floats are read as reals; only their comparison with zero is used.
\<close>

datatype json =
    JNull
  | JBool bool
  | JInt int
  | JFloat real
  | JStr string
  | JArr "json list"
  | JObj "(string \<times> json) list"

text \<open>Python truthiness, as \<open>all([...])\<close> and \<open>if x\<close> apply it.\<close>

fun truthy :: "json \<Rightarrow> bool" where
  "truthy JNull = False"
| "truthy (JBool b) = b"
| "truthy (JInt i) = (i \<noteq> 0)"
| "truthy (JFloat r) = (r \<noteq> 0)"
| "truthy (JStr s) = (s \<noteq> [])"
| "truthy (JArr xs) = (xs \<noteq> [])"
| "truthy (JObj kvs) = (kvs \<noteq> [])"

text \<open>\<open>d.get(k)\<close>: the value under the key, \<open>None\<close> when the key is absent.\<close>

definition dict_get :: "(string \<times> json) list \<Rightarrow> string \<Rightarrow> json" where
  "dict_get d k = (case map_of d k of None \<Rightarrow> JNull | Some v \<Rightarrow> v)"

record listing =
  id_l :: string
  name :: json
  description :: json
  price :: json
  category :: json
  owner :: string

record message =
  sender :: string
  content :: string
  timestamp :: real
  read :: bool

text \<open>
  \<open>item_info\<close> is the key that \<open>get_conversation_api\<close> adds to a stored conversation:
  \<open>None\<close> while the key is absent, \<open>Some None\<close> for the value \<open>None\<close> (listing not
  found), \<open>Some (Some l)\<close> for a listing.
\<close>

record conversation =
  id_c :: string
  item_id :: string
  participants :: "string list"
  messages :: "message list"
  item_info :: "listing option option"

record store =
  listings :: "(string \<times> listing) list"
  conversations :: "(string \<times> conversation) list"

text \<open>
  The manager: the dictionary in memory and the file on disk (\<open>None\<close>: no file).
  The file's contents are of a type \<open>'f\<close>; \<open>json.dump\<close> and \<open>json.load\<close> are
  parameters \<open>dump\<close> and \<open>load\<close> of the operations that call them.
\<close>

record 'f manager =
  data :: store
  disk :: "'f option"

datatype error =
    ValidationFailed
  | ItemNotFound
  | SelfMessage
  | ConversationNotFound
  | Unauthorized

fun error_message :: "error \<Rightarrow> string" where
  "error_message ValidationFailed = ''All fields are required.''"
| "error_message ItemNotFound = ''Item not found.''"
| "error_message SelfMessage = ''You cannot message yourself.''"
| "error_message ConversationNotFound = ''Conversation not found.''"
| "error_message Unauthorized = ''Unauthorized access.''"

text \<open>Exceptions that \<open>get_inbox_api\<close> can raise.\<close>

datatype exn = StopIteration | IndexError

record summary =
  convo_id :: string
  item_name :: json
  other_participant :: string
  last_message :: message
  unread_count :: nat

section \<open>Loading and saving\<close>

definition default_store :: store where
  "default_store = \<lparr>listings = [], conversations = []\<rparr>"

text \<open>
  \<open>_load_data\<close>: the decoded file when it exists and decodes; the default structure
  when there is no file or \<open>json.load\<close> raises \<open>JSONDecodeError\<close>.
\<close>

definition load_data :: "('f \<Rightarrow> store option) \<Rightarrow> 'f option \<Rightarrow> store" where
  "load_data load f =
     (case f of
        None \<Rightarrow> default_store
      | Some txt \<Rightarrow> (case load txt of Some d \<Rightarrow> d | None \<Rightarrow> default_store))"

text \<open>\<open>__init__\<close>: the manager after a start on the given file.\<close>

definition init_manager :: "('f \<Rightarrow> store option) \<Rightarrow> 'f option \<Rightarrow> 'f manager" where
  "init_manager load f = \<lparr>data = load_data load f, disk = f\<rparr>"

text \<open>\<open>_save_data\<close>: the file is rewritten with the encoding of the whole dictionary.\<close>

definition save_data :: "(store \<Rightarrow> 'f) \<Rightarrow> 'f manager \<Rightarrow> 'f manager" where
  "save_data dump m = m\<lparr>disk := Some (dump (data m))\<rparr>"

section \<open>Listings\<close>

text \<open>
  \<open>create_listing_api\<close>. The last argument is the string that \<open>str(uuid4())\<close> returns.
\<close>

definition create_listing_api ::
  "(store \<Rightarrow> 'f) \<Rightarrow> 'f manager \<Rightarrow> (string \<times> json) list \<Rightarrow> string \<Rightarrow> string
     \<Rightarrow> (error + listing) \<times> 'f manager" where
  "create_listing_api dump m item_data own listing_id =
     (let nm = dict_get item_data ''name'';
          ds = dict_get item_data ''description'';
          pr = dict_get item_data ''price'';
          ct = dict_get item_data ''category''
      in if \<not> list_all truthy [nm, ds, pr, ct] then (Inl ValidationFailed, m)
         else
           let l = \<lparr>id_l = listing_id, name = nm, description = ds, price = pr,
                     category = ct, owner = own\<rparr>;
               d = (data m)\<lparr>listings := AList.update listing_id l (listings (data m))\<rparr>
           in (Inr l, save_data dump (m\<lparr>data := d\<rparr>)))"

definition get_all_items_api :: "'f manager \<Rightarrow> listing list" where
  "get_all_items_api m = map snd (listings (data m))"

section \<open>Messaging\<close>

text \<open>The test of the search loop of \<open>send_message_api\<close>.\<close>

definition convo_matches :: "string \<Rightarrow> string \<Rightarrow> string \<Rightarrow> string \<times> conversation \<Rightarrow> bool" where
  "convo_matches iid snd_user rcp kc =
     (item_id (snd kc) = iid \<and> snd_user \<in> set (participants (snd kc))
        \<and> rcp \<in> set (participants (snd kc)))"

text \<open>
  The search loop: the id of the first conversation that passes the test, \<open>None\<close> when
  the loop ends without a \<open>break\<close>.
\<close>

definition find_convo :: "(string \<times> conversation) list \<Rightarrow> string \<Rightarrow> string \<Rightarrow> string \<Rightarrow> string option" where
  "find_convo cs iid snd_user rcp = map_option fst (find (convo_matches iid snd_user rcp) cs)"

text \<open>\<open>if convo_id:\<close> holds for a string that is not empty.\<close>

fun id_truthy :: "string option \<Rightarrow> bool" where
  "id_truthy None = False"
| "id_truthy (Some s) = (s \<noteq> [])"

text \<open>The message and the conversation that \<open>send_message_api\<close> builds.\<close>

definition new_message :: "string \<Rightarrow> string \<Rightarrow> real \<Rightarrow> message" where
  "new_message snd_user cont now =
     \<lparr>sender = snd_user, content = cont, timestamp = now, read = False\<rparr>"

definition new_conversation :: "string \<Rightarrow> string \<Rightarrow> string \<Rightarrow> string \<Rightarrow> message \<Rightarrow> conversation" where
  "new_conversation new_convo_id iid snd_user rcp msg =
     \<lparr>id_c = new_convo_id, item_id = iid, participants = [snd_user, rcp],
      messages = [msg], item_info = None\<rparr>"

text \<open>
  \<open>send_message_api\<close>. \<open>now\<close> is the value of \<open>time.time()\<close> and \<open>new_convo_id\<close> the
  string that \<open>str(uuid4())\<close> would return (it is only used on the branch that creates a
  conversation).
\<close>

definition send_message_api ::
  "(store \<Rightarrow> 'f) \<Rightarrow> 'f manager \<Rightarrow> string \<Rightarrow> string \<Rightarrow> string \<Rightarrow> real \<Rightarrow> string
     \<Rightarrow> (error + unit) \<times> 'f manager" where
  "send_message_api dump m iid snd_user cont now new_convo_id =
     (case map_of (listings (data m)) iid of
        None \<Rightarrow> (Inl ItemNotFound, m)
      | Some item \<Rightarrow>
          let recipient = owner item in
          if snd_user = recipient then (Inl SelfMessage, m)
          else
            let cid = find_convo (conversations (data m)) iid snd_user recipient;
                msg = new_message snd_user cont now;
                cs = (if id_truthy cid
                      then AList.map_entry (the cid) (\<lambda>c. c\<lparr>messages := messages c @ [msg]\<rparr>)
                             (conversations (data m))
                      else AList.update new_convo_id
                             (new_conversation new_convo_id iid snd_user recipient msg)
                             (conversations (data m)))
            in (Inr (), save_data dump (m\<lparr>data := (data m)\<lparr>conversations := cs\<rparr>\<rparr>)))"

text \<open>The counting loop of \<open>get_inbox_api\<close>.\<close>

definition count_unread :: "string \<Rightarrow> message list \<Rightarrow> nat" where
  "count_unread username msgs =
     fold (\<lambda>msg n. if \<not> read msg \<and> sender msg \<noteq> username then n + 1 else n) msgs 0"

text \<open>
  The body of the loop of \<open>get_inbox_api\<close> for one conversation of the user:
  \<open>next(...)\<close> raises \<open>StopIteration\<close> when no participant differs from the user, and
  \<open>convo["messages"][-1]\<close> raises \<open>IndexError\<close> on an empty list.
\<close>

definition summarise ::
  "(string \<times> listing) list \<Rightarrow> string \<Rightarrow> string \<times> conversation \<Rightarrow> exn + summary" where
  "summarise ls username kc =
     (let item = map_of ls (item_id (snd kc)) in
      case find (\<lambda>p. p \<noteq> username) (participants (snd kc)) of
        None \<Rightarrow> Inl StopIteration
      | Some other \<Rightarrow>
          let unread = count_unread username (messages (snd kc)) in
          if messages (snd kc) = [] then Inl IndexError
          else Inr \<lparr>convo_id = fst kc,
                    item_name = (case item of Some l \<Rightarrow> name l | None \<Rightarrow> JStr ''Deleted Item''),
                    other_participant = other,
                    last_message = last (messages (snd kc)),
                    unread_count = unread\<rparr>)"

text \<open>The loop over the conversations; the first exception ends the call.\<close>

fun inbox_loop ::
  "(string \<times> listing) list \<Rightarrow> string \<Rightarrow> (string \<times> conversation) list \<Rightarrow> exn + summary list" where
  "inbox_loop ls username [] = Inr []"
| "inbox_loop ls username (kc # cs) =
     (if username \<in> set (participants (snd kc))
      then (case summarise ls username kc of
              Inl e \<Rightarrow> Inl e
            | Inr s \<Rightarrow> (case inbox_loop ls username cs of
                          Inl e \<Rightarrow> Inl e
                        | Inr ss \<Rightarrow> Inr (s # ss)))
      else inbox_loop ls username cs)"

text \<open>
  \<open>list.sort(key=..., reverse=True)\<close> is stable: it reverses the list, sorts it with
  the stable ascending sort, and reverses the result.
\<close>

definition sort_reverse :: "('a \<Rightarrow> real) \<Rightarrow> 'a list \<Rightarrow> 'a list" where
  "sort_reverse k xs = rev (sort_key k (rev xs))"

definition get_inbox_api :: "'f manager \<Rightarrow> string \<Rightarrow> exn + summary list" where
  "get_inbox_api m username =
     (case inbox_loop (listings (data m)) username (conversations (data m)) of
        Inl e \<Rightarrow> Inl e
      | Inr user_inbox \<Rightarrow> Inr (sort_reverse (\<lambda>x. timestamp (last_message x)) user_inbox))"

text \<open>The marking loop of \<open>get_conversation_api\<close>.\<close>

definition mark_read :: "string \<Rightarrow> message list \<Rightarrow> message list" where
  "mark_read username msgs =
     map (\<lambda>msg. if sender msg \<noteq> username then msg\<lparr>read := True\<rparr> else msg) msgs"

text \<open>
  \<open>get_conversation_api\<close>: the messages are marked in the stored conversation, the
  dictionary is saved, and only then \<open>item_info\<close> is written into the same stored
  conversation, which is returned.
\<close>

definition get_conversation_api ::
  "(store \<Rightarrow> 'f) \<Rightarrow> 'f manager \<Rightarrow> string \<Rightarrow> string \<Rightarrow> (error + conversation) \<times> 'f manager" where
  "get_conversation_api dump m cid username =
     (case map_of (conversations (data m)) cid of
        None \<Rightarrow> (Inl ConversationNotFound, m)
      | Some convo \<Rightarrow>
          if username \<notin> set (participants convo) then (Inl Unauthorized, m)
          else
            let marked = AList.map_entry cid
                           (\<lambda>c. c\<lparr>messages := mark_read username (messages c)\<rparr>)
                           (conversations (data m));
                m1 = save_data dump (m\<lparr>data := (data m)\<lparr>conversations := marked\<rparr>\<rparr>);
                item = map_of (listings (data m1)) (item_id convo);
                final = convo\<lparr>messages := mark_read username (messages convo),
                              item_info := Some item\<rparr>
            in (Inr final,
                m1\<lparr>data := (data m1)\<lparr>conversations :=
                        AList.map_entry cid (\<lambda>c. c\<lparr>item_info := Some item\<rparr>)
                          (conversations (data m1))\<rparr>\<rparr>))"

section \<open>Runs of the manager\<close>

text \<open>
  A call of one of the four operations, with the values that the environment supplies
  to it (the clock's reading, the generated identifier).
\<close>

datatype op =
    CreateListing "(string \<times> json) list" string string
  | SendMessage string string string real string
  | GetInbox string
  | GetConversation string string

fun exec :: "(store \<Rightarrow> 'f) \<Rightarrow> op \<Rightarrow> 'f manager \<Rightarrow> 'f manager" where
  "exec dump (CreateListing item_data own u) m = snd (create_listing_api dump m item_data own u)"
| "exec dump (SendMessage iid snd_user cont now u) m =
     snd (send_message_api dump m iid snd_user cont now u)"
| "exec dump (GetInbox username) m = m"
| "exec dump (GetConversation cid username) m = snd (get_conversation_api dump m cid username)"

text \<open>
  What is taken for granted of \<open>str(uuid4())\<close>: a string of 36 characters that is not
  yet a key of the dictionary it is about to be stored in.
\<close>

definition is_uuid :: "string \<Rightarrow> bool" where
  "is_uuid u = (length u = 36)"

fun op_ok :: "'f manager \<Rightarrow> op \<Rightarrow> bool" where
  "op_ok m (CreateListing item_data own u) =
     (is_uuid u \<and> u \<notin> set (map fst (listings (data m))))"
| "op_ok m (SendMessage iid snd_user cont now u) =
     (is_uuid u \<and> u \<notin> set (map fst (conversations (data m))))"
| "op_ok m (GetInbox username) = True"
| "op_ok m (GetConversation cid username) = True"

fun trace_ok :: "(store \<Rightarrow> 'f) \<Rightarrow> 'f manager \<Rightarrow> op list \<Rightarrow> bool" where
  "trace_ok dump m [] = True"
| "trace_ok dump m (x # xs) = (op_ok m x \<and> trace_ok dump (exec dump x m) xs)"

fun run :: "(store \<Rightarrow> 'f) \<Rightarrow> 'f manager \<Rightarrow> op list \<Rightarrow> 'f manager" where
  "run dump m [] = m"
| "run dump m (x # xs) = run dump (exec dump x m) xs"

text \<open>The manager of a first start: no file, the default structure in memory.\<close>

definition empty_manager :: "'f manager" where
  "empty_manager = \<lparr>data = default_store, disk = None\<rparr>"

section \<open>Well-formed stores\<close>

text \<open>A conversation's thread: its item and the set of its participants.\<close>

definition thread_key :: "conversation \<Rightarrow> string \<times> string set" where
  "thread_key c = (item_id c, set (participants c))"

definition convo_ok :: "string \<times> conversation \<Rightarrow> bool" where
  "convo_ok kc =
     (id_c (snd kc) = fst kc \<and> fst kc \<noteq> [] \<and> messages (snd kc) \<noteq> []
        \<and> length (participants (snd kc)) = 2 \<and> distinct (participants (snd kc)))"

definition one_per_thread :: "store \<Rightarrow> bool" where
  "one_per_thread d = distinct (map (\<lambda>kc. thread_key (snd kc)) (conversations d))"

definition store_ok :: "store \<Rightarrow> bool" where
  "store_ok d =
     (distinct (map fst (listings d)) \<and> distinct (map fst (conversations d))
        \<and> list_all convo_ok (conversations d) \<and> one_per_thread d)"

text \<open>Membership in the thread of an item and two users.\<close>

definition in_thread :: "string \<Rightarrow> string \<Rightarrow> string \<Rightarrow> string \<times> conversation \<Rightarrow> bool" where
  "in_thread iid a b kc = (thread_key (snd kc) = (iid, {a, b}))"

section \<open>An example run\<close>

definition L1 :: string where
  "L1 = ''00000000-0000-4000-8000-00000000000a''"

definition C1 :: string where
  "C1 = ''00000000-0000-4000-8000-00000000000b''"

definition C2 :: string where
  "C2 = ''00000000-0000-4000-8000-00000000000c''"

definition chair :: "(string \<times> json) list" where
  "chair = [(''name'', JStr ''Chair''), (''description'', JStr ''Oak, four legs''),
            (''price'', JInt 20), (''category'', JStr ''Furniture'')]"

text \<open>
  alice lists a chair, bob asks about it, alice looks at her inbox and opens the
  conversation, bob writes again. The file holds the dictionary itself.
\<close>

definition demo :: "op list" where
  "demo = [CreateListing chair ''alice'' L1,
           SendMessage L1 ''bob'' ''interested!'' 100 C1,
           GetInbox ''alice'',
           GetConversation C1 ''alice'',
           SendMessage L1 ''bob'' ''still there?'' 200 C2]"

text \<open>The store after alice's listing alone, and the listing.\<close>

definition listed :: "store manager" where
  "listed = run (\<lambda>d. d) empty_manager [CreateListing chair ''alice'' L1]"

definition chair_listing :: listing where
  "chair_listing = \<lparr>id_l = L1, name = JStr ''Chair'', description = JStr ''Oak, four legs'',
                      price = JInt 20, category = JStr ''Furniture'', owner = ''alice''\<rparr>"

text \<open>The store after bob's first message about it.\<close>

definition asked :: "store manager" where
  "asked = run (\<lambda>d. d) listed [SendMessage L1 ''bob'' ''interested!'' 100 C1]"

section \<open>Notions of the specification\<close>

text \<open>A message counts as unread for a user: not read, and sent by somebody else.\<close>

definition is_unread_for :: "string \<Rightarrow> message \<Rightarrow> bool" where
  "is_unread_for username msg = (\<not> read msg \<and> sender msg \<noteq> username)"

text \<open>The unread count that the user's inbox shows for a conversation, if it lists it.\<close>

definition inbox_unread :: "'f manager \<Rightarrow> string \<Rightarrow> string \<Rightarrow> nat option" where
  "inbox_unread m username k =
     (case get_inbox_api m username of
        Inl e \<Rightarrow> None
      | Inr ss \<Rightarrow> map_option unread_count (find (\<lambda>s. convo_id s = k) ss))"

text \<open>The store after alice has opened the conversation, and what the call returned.\<close>

definition opened :: "store manager" where
  "opened = run (\<lambda>d. d) asked [GetConversation C1 ''alice'']"

definition opened_convo :: conversation where
  "opened_convo =
     \<lparr>id_c = C1, item_id = L1, participants = [''bob'', ''alice''],
      messages = [\<lparr>sender = ''bob'', content = ''interested!'', timestamp = 100, read = True\<rparr>],
      item_info = Some (Some chair_listing)\<rparr>"

text \<open>A request body that lacks three of the four fields.\<close>

definition lamp :: "(string \<times> json) list" where
  "lamp = [(''name'', JStr ''Lamp'')]"

text \<open>
  Carol and dave ask about the chair too, both at time 300; alice's inbox then.
\<close>

definition D1 :: string where
  "D1 = ''00000000-0000-4000-8000-00000000000d''"

definition busy :: "store manager" where
  "busy = run (\<lambda>d. d) asked
     [SendMessage L1 ''carol'' ''is it oak?'' 300 C2,
      SendMessage L1 ''dave'' ''will you ship?'' 300 D1]"

definition busy_inbox :: "summary list" where
  "busy_inbox = (case get_inbox_api busy ''alice'' of Inr ss \<Rightarrow> ss | Inl e \<Rightarrow> [])"

text \<open>
  Another continuation: carol asks at time 150 and bob writes again at time 200, so that
  bob's conversation began first and was written to last.
\<close>

definition carol_convo :: conversation where
  "carol_convo = new_conversation C2 L1 ''carol'' ''alice'' (new_message ''carol'' ''is it oak?'' 150)"

definition busy2 :: "store manager" where
  "busy2 = run (\<lambda>d. d) asked
     [SendMessage L1 ''carol'' ''is it oak?'' 150 C2,
      SendMessage L1 ''bob'' ''still there?'' 200 D1]"

definition busy2_inbox :: "summary list" where
  "busy2_inbox = (case get_inbox_api busy2 ''alice'' of Inr ss \<Rightarrow> ss | Inl e \<Rightarrow> [])"

text \<open>
  The conversation as bob's first message left it, a later stretch of the run, and the
  conversation after a second message of bob's that alice has not looked at.
\<close>

definition asked_convo :: conversation where
  "asked_convo =
     \<lparr>id_c = C1, item_id = L1, participants = [''bob'', ''alice''],
      messages = [new_message ''bob'' ''interested!'' 100], item_info = None\<rparr>"

definition later :: "op list" where
  "later = [GetInbox ''alice'', GetConversation C1 ''alice'',
            SendMessage L1 ''bob'' ''still there?'' 200 C2]"

definition asked_twice_convo :: conversation where
  "asked_twice_convo =
     \<lparr>id_c = C1, item_id = L1, participants = [''bob'', ''alice''],
      messages = [new_message ''bob'' ''interested!'' 100, new_message ''bob'' ''still there?'' 200],
      item_info = None\<rparr>"

text \<open>
  A later state of a conversation keeps an earlier one: its messages are still there, in
  place and unchanged but for the read flag, and a message that was read is read.
\<close>

definition read_kept :: "conversation \<Rightarrow> conversation \<Rightarrow> bool" where
  "read_kept c c' =
     (length (messages c) \<le> length (messages c')
      \<and> (\<forall>i < length (messages c).
            sender (messages c' ! i) = sender (messages c ! i)
            \<and> content (messages c' ! i) = content (messages c ! i)
            \<and> timestamp (messages c' ! i) = timestamp (messages c ! i)
            \<and> (read (messages c ! i) \<longrightarrow> read (messages c' ! i))))"

text \<open>A request body with all four fields, for a chair that costs nothing.\<close>

definition free_chair :: "(string \<times> json) list" where
  "free_chair = [(''name'', JStr ''Chair''), (''description'', JStr ''Free to a good home''),
                 (''price'', JInt 0), (''category'', JStr ''Furniture'')]"

text \<open>
  Two dictionaries agree but for \<open>item_info\<close>: the same listings, and the same
  conversations under the same ids in the same order, with the same item, participants
  and messages (read flags included).
\<close>

definition erase_info :: "string \<times> conversation \<Rightarrow> string \<times> conversation" where
  "erase_info kc = (fst kc, (snd kc)\<lparr>item_info := None\<rparr>)"

definition in_sync :: "store \<Rightarrow> store \<Rightarrow> bool" where
  "in_sync d d' =
     (listings d = listings d'
      \<and> map erase_info (conversations d) = map erase_info (conversations d'))"

text \<open>What a restart would load agrees in this sense with what is in memory.\<close>

definition synced :: "('f \<Rightarrow> store option) \<Rightarrow> 'f manager \<Rightarrow> bool" where
  "synced load m = in_sync (load_data load (disk m)) (data m)"

text \<open>The stored conversation under an id carries the key \<open>item_info\<close>.\<close>

definition has_info :: "store \<Rightarrow> string \<Rightarrow> bool" where
  "has_info d cid =
     (case map_of (conversations d) cid of None \<Rightarrow> False | Some c \<Rightarrow> item_info c \<noteq> None)"

text \<open>
  The dictionary that \<open>get_conversation_api\<close> saves: the messages marked, \<open>item_info\<close>
  not yet written.
\<close>

definition marked_store :: "store \<Rightarrow> string \<Rightarrow> string \<Rightarrow> store" where
  "marked_store d cid username =
     d\<lparr>conversations := AList.map_entry cid
          (\<lambda>c. c\<lparr>messages := mark_read username (messages c)\<rparr>) (conversations d)\<rparr>"

text \<open>Bob writes once more after alice has opened the conversation.\<close>

definition reply :: "op list" where
  "reply = [SendMessage L1 ''bob'' ''still there?'' 200 C2]"

section \<open>Association lists\<close>

lemma update_fresh: "k \<notin> fst ` set al \<Longrightarrow> AList.update k v al = al @ [(k, v)]"
  by (induction al) auto

lemma map_fst_map_entry: "map fst (AList.map_entry k f al) = map fst al"
  by (induction al) auto

lemma map_entry_keeps:
  "(\<And>c. g (f c) = g c) \<Longrightarrow>
     map (\<lambda>kc. g (snd kc)) (AList.map_entry k f al) = map (\<lambda>kc. g (snd kc)) al"
  by (induction al) auto

lemma list_all_map_entry:
  "list_all P al \<Longrightarrow> (\<And>v. P (k, v) \<Longrightarrow> P (k, f v)) \<Longrightarrow> list_all P (AList.map_entry k f al)"
  by (induction al) auto

section \<open>Every run keeps the store well formed\<close>

lemma store_ok_map_entry:
  assumes ok: "store_ok d"
    and f: "\<And>c. id_c (f c) = id_c c" "\<And>c. item_id (f c) = item_id c"
      "\<And>c. participants (f c) = participants c" "\<And>c. messages c \<noteq> [] \<Longrightarrow> messages (f c) \<noteq> []"
  shows "store_ok (d\<lparr>conversations := AList.map_entry k f (conversations d)\<rparr>)"
proof -
  have tk: "\<And>c. thread_key (f c) = thread_key c"
    by (simp add: thread_key_def f)
  have "list_all convo_ok (AList.map_entry k f (conversations d))"
    using ok by (intro list_all_map_entry) (auto simp: store_ok_def convo_ok_def f)
  then show ?thesis
    using ok map_entry_keeps [of thread_key f k "conversations d", OF tk]
    by (simp add: store_ok_def one_per_thread_def map_fst_map_entry)
qed

lemma find_convo_None:
  "find_convo cs iid s r = None \<longleftrightarrow> (\<forall>kc \<in> set cs. \<not> convo_matches iid s r kc)"
  by (auto simp: find_convo_def find_None_iff)

lemma find_convo_Some:
  "find_convo cs iid s r = Some k \<Longrightarrow> \<exists>c. (k, c) \<in> set cs \<and> convo_matches iid s r (k, c)"
  by (auto simp: find_convo_def find_Some_iff) (metis nth_mem prod.collapse)

lemma id_truthy_find:
  assumes "list_all convo_ok cs"
  shows "id_truthy (find_convo cs iid s r) \<longleftrightarrow> find_convo cs iid s r \<noteq> None"
proof (cases "find_convo cs iid s r")
  case None
  then show ?thesis by simp
next
  case (Some k)
  then obtain c where "(k, c) \<in> set cs" using find_convo_Some by blast
  with assms have "k \<noteq> []" by (auto simp: list_all_iff convo_ok_def)
  with Some show ?thesis by simp
qed

lemma store_ok_create:
  assumes "store_ok (data m)"
  shows "store_ok (data (snd (create_listing_api dump m item_data own u)))"
  using assms
  by (auto simp: create_listing_api_def Let_def save_data_def store_ok_def one_per_thread_def
      AList.distinct_update)

lemma store_ok_send:
  assumes ok: "store_ok (data m)" and fresh: "u \<noteq> []" "u \<notin> set (map fst (conversations (data m)))"
  shows "store_ok (data (snd (send_message_api dump m iid s x t u)))"
proof (cases "map_of (listings (data m)) iid")
  case None
  then show ?thesis using ok by (simp add: send_message_api_def)
next
  case (Some item)
  show ?thesis
  proof (cases "s = owner item")
    case True
    then show ?thesis using ok Some by (simp add: send_message_api_def)
  next
    case False
    let ?cid = "find_convo (conversations (data m)) iid s (owner item)"
    have all: "list_all convo_ok (conversations (data m))" using ok by (simp add: store_ok_def)
    show ?thesis
    proof (cases ?cid)
      case (Some k)
      then have "id_truthy ?cid" using id_truthy_find [OF all, of iid s "owner item"] by simp
      then show ?thesis
        using \<open>map_of (listings (data m)) iid = Some item\<close> False Some
          store_ok_map_entry [OF ok, of "\<lambda>c. c\<lparr>messages := messages c @ [new_message s x t]\<rparr>" k]
        by (simp add: send_message_api_def Let_def save_data_def)
    next
      case None
      let ?c = "new_conversation u iid s (owner item) (new_message s x t)"
      have upd: "AList.update u ?c (conversations (data m)) = conversations (data m) @ [(u, ?c)]"
        using fresh by (intro update_fresh) simp
      have nomatch: "\<forall>kc \<in> set (conversations (data m)). \<not> convo_matches iid s (owner item) kc"
        using None by (simp add: find_convo_None)
      have "thread_key ?c \<notin> set (map (\<lambda>kc. thread_key (snd kc)) (conversations (data m)))"
        using nomatch by (auto simp: thread_key_def convo_matches_def new_conversation_def)
      then show ?thesis
        using \<open>map_of (listings (data m)) iid = Some item\<close> False None ok fresh upd
        by (simp add: send_message_api_def Let_def save_data_def store_ok_def one_per_thread_def
            convo_ok_def new_conversation_def)
    qed
  qed
qed

lemma store_ok_get_conversation:
  assumes ok: "store_ok (data m)"
  shows "store_ok (data (snd (get_conversation_api dump m cid username)))"
proof (cases "map_of (conversations (data m)) cid")
  case None
  then show ?thesis using ok by (simp add: get_conversation_api_def)
next
  case (Some convo)
  show ?thesis
  proof (cases "username \<in> set (participants convo)")
    case False
    then show ?thesis using ok Some by (simp add: get_conversation_api_def)
  next
    case True
    let ?d1 = "(data m)\<lparr>conversations := AList.map_entry cid
                 (\<lambda>c. c\<lparr>messages := mark_read username (messages c)\<rparr>) (conversations (data m))\<rparr>"
    have 1: "store_ok ?d1"
      by (rule store_ok_map_entry [OF ok]) (simp_all add: mark_read_def)
    have "store_ok (?d1\<lparr>conversations := AList.map_entry cid
                 (\<lambda>c. c\<lparr>item_info := Some (map_of (listings (data m)) (item_id convo))\<rparr>) (conversations ?d1)\<rparr>)"
      by (rule store_ok_map_entry [OF 1]) simp_all
    then show ?thesis
      using Some True by (simp add: get_conversation_api_def Let_def save_data_def)
  qed
qed

lemma is_uuid_nonempty: "is_uuid u \<Longrightarrow> u \<noteq> []"
  by (auto simp: is_uuid_def)

lemma store_ok_exec:
  "store_ok (data m) \<Longrightarrow> op_ok m x \<Longrightarrow> store_ok (data (exec dump x m))"
  by (cases x) (auto intro: store_ok_create store_ok_send store_ok_get_conversation
      dest: is_uuid_nonempty)

lemma store_ok_run:
  "store_ok (data m) \<Longrightarrow> trace_ok dump m xs \<Longrightarrow> store_ok (data (run dump m xs))"
  by (induction xs arbitrary: m) (auto intro: store_ok_exec)

lemma store_ok_empty: "store_ok (data empty_manager)"
  by (simp add: empty_manager_def default_store_def store_ok_def one_per_thread_def)


section \<open>One conversation per item and pair of users\<close>

text \<open>
  C2. In every state that a run of the four operations reaches from the empty store,
  no two stored conversations have the same item and the same set of participants,
  and a further operation leaves it so.
\<close>

theorem one_conversation_per_thread:
  assumes "trace_ok dump empty_manager xs"
  shows "one_per_thread (data (run dump empty_manager xs))
     \<and> (\<forall>x. op_ok (run dump empty_manager xs) x \<longrightarrow>
            one_per_thread (data (exec dump x (run dump empty_manager xs))))"
proof -
  have ok: "store_ok (data (run dump empty_manager xs))"
    using assms store_ok_empty by (rule store_ok_run [rotated])
  then have "\<And>x. op_ok (run dump empty_manager xs) x \<Longrightarrow>
      store_ok (data (exec dump x (run dump empty_manager xs)))"
    by (rule store_ok_exec)
  with ok show ?thesis
    by (simp add: store_ok_def)
qed

theorem one_conversation_per_thread_witness:
  "trace_ok (\<lambda>d. d) (empty_manager :: store manager) demo
     \<and> one_per_thread (data (run (\<lambda>d. d) (empty_manager :: store manager) demo))"
proof -
  have t: "trace_ok (\<lambda>d. d) (empty_manager :: store manager) demo"
    by code_simp
  from one_conversation_per_thread [OF t] t show ?thesis
    by simp
qed

section \<open>Messages about one item between two users share a conversation\<close>

lemma matches_iff_in_thread:
  assumes "convo_ok kc" "s \<noteq> r"
  shows "convo_matches iid s r kc = in_thread iid s r kc"
proof -
  from assms(1) obtain a b where ab: "participants (snd kc) = [a, b]"
    by (auto simp: convo_ok_def length_Suc_conv numeral_2_eq_2)
  show ?thesis
    using assms(2) by (auto simp: convo_matches_def in_thread_def thread_key_def ab)
qed

lemma find_as_filter:
  "find P xs = (case filter P xs of [] \<Rightarrow> None | x # _ \<Rightarrow> Some x)"
  by (induction xs) auto

lemma find_convo_filter:
  assumes "list_all convo_ok cs" "s \<noteq> r"
  shows "find_convo cs iid s r =
    (case filter (in_thread iid s r) cs of [] \<Rightarrow> None | kc # _ \<Rightarrow> Some (fst kc))"
proof -
  have "filter (convo_matches iid s r) cs = filter (in_thread iid s r) cs"
    using assms by (intro filter_cong) (auto simp: list_all_iff matches_iff_in_thread)
  then show ?thesis
    by (simp add: find_convo_def find_as_filter split: list.splits)
qed

lemma filter_distinct_key:
  "distinct (map g xs) \<Longrightarrow> length (filter (\<lambda>x. g x = v) xs) \<le> 1"
  by (induction xs) (auto simp: filter_empty_conv image_iff)

lemma thread_filter_le1:
  "one_per_thread d \<Longrightarrow> length (filter (in_thread iid a b) (conversations d)) \<le> 1"
  unfolding one_per_thread_def in_thread_def
  by (rule filter_distinct_key)

lemma filter_map_entry:
  assumes "distinct (map fst cs)" "filter P cs = [(k, c)]" "\<And>k' c'. P (k', f c') = P (k', c')"
  shows "filter P (AList.map_entry k f cs) = [(k, f c)]"
  using assms(1,2)
proof (induction cs)
  case Nil
  then show ?case by simp
next
  case (Cons kc cs)
  show ?case
  proof (cases "fst kc = k")
    case True
    have "(k, c) \<in> set (filter P (kc # cs))" using Cons.prems(2) by simp
    then have mem: "(k, c) \<in> set (kc # cs)" and P: "P (k, c)"
      unfolding set_filter by blast+
    have "k \<notin> fst ` set cs" using Cons.prems(1) True by auto
    with mem have kc: "kc = (k, c)" by force
    with Cons.prems(2) P have "filter P cs = []" by simp
    with kc P show ?thesis by (simp add: assms(3))
  next
    case False
    have "\<not> P kc"
    proof
      assume "P kc"
      with Cons.prems(2) have "kc = (k, c)" by simp
      with False show False by simp
    qed
    with Cons False show ?thesis by simp
  qed
qed


lemma send_reuse:
  assumes ok: "store_ok (data m)" and item: "map_of (listings (data m)) iid = Some item"
    and ne: "s \<noteq> owner item"
    and one: "filter (in_thread iid s (owner item)) (conversations (data m)) = [(k, c)]"
  shows "\<exists>m1. send_message_api dump m iid s x t u = (Inr (), m1)
     \<and> map fst (conversations (data m1)) = map fst (conversations (data m))
     \<and> listings (data m1) = listings (data m)
     \<and> filter (in_thread iid s (owner item)) (conversations (data m1))
         = [(k, c\<lparr>messages := messages c @ [new_message s x t]\<rparr>)]"
proof -
  let ?f = "\<lambda>c. c\<lparr>messages := messages c @ [new_message s x t]\<rparr>"
  have all: "list_all convo_ok (conversations (data m))" and dist: "distinct (map fst (conversations (data m)))"
    using ok by (simp_all add: store_ok_def)
  have cid: "find_convo (conversations (data m)) iid s (owner item) = Some k"
    using find_convo_filter [OF all ne, of iid] one by simp
  have "(k, c) \<in> set (filter (in_thread iid s (owner item)) (conversations (data m)))"
    using one by simp
  then have "(k, c) \<in> set (conversations (data m))" by simp
  with all have "k \<noteq> []" by (auto simp: list_all_iff convo_ok_def)
  with cid have truthy: "id_truthy (find_convo (conversations (data m)) iid s (owner item))" by simp
  have flt: "filter (in_thread iid s (owner item)) (AList.map_entry k ?f (conversations (data m)))
      = [(k, ?f c)]"
    using dist one by (rule filter_map_entry) (simp add: in_thread_def thread_key_def)
  show ?thesis
    using item ne cid truthy flt
    by (simp add: send_message_api_def Let_def save_data_def map_fst_map_entry)
qed

lemma send_create:
  assumes ok: "store_ok (data m)" and item: "map_of (listings (data m)) iid = Some item"
    and ne: "s \<noteq> owner item"
    and none: "filter (in_thread iid s (owner item)) (conversations (data m)) = []"
    and fresh: "u \<notin> set (map fst (conversations (data m)))"
  shows "\<exists>m1. send_message_api dump m iid s x t u = (Inr (), m1)
     \<and> listings (data m1) = listings (data m)
     \<and> conversations (data m1) = conversations (data m)
          @ [(u, new_conversation u iid s (owner item) (new_message s x t))]
     \<and> filter (in_thread iid s (owner item)) (conversations (data m1))
         = [(u, new_conversation u iid s (owner item) (new_message s x t))]"
proof -
  let ?c = "new_conversation u iid s (owner item) (new_message s x t)"
  have all: "list_all convo_ok (conversations (data m))"
    using ok by (simp add: store_ok_def)
  have cid: "find_convo (conversations (data m)) iid s (owner item) = None"
    using find_convo_filter [OF all ne, of iid] none by simp
  have upd: "AList.update u ?c (conversations (data m)) = conversations (data m) @ [(u, ?c)]"
    using fresh by (intro update_fresh) simp
  have "in_thread iid s (owner item) (u, ?c)"
    by (simp add: in_thread_def thread_key_def new_conversation_def)
  then show ?thesis
    using item ne cid upd none
    by (simp add: send_message_api_def Let_def save_data_def)
qed

lemma send_self:
  "map_of (listings (data m)) iid = Some item \<Longrightarrow>
     send_message_api dump m iid (owner item) x t u = (Inl SelfMessage, m)"
  by (simp add: send_message_api_def)

text \<open>
  C1, as the code has it. For a stored listing and a sender who is not its owner, a
  send with a fresh identifier succeeds and leaves exactly one conversation for the
  item and the pair; when there was none, it is the new conversation, appended to the
  store. A further send by the same sender succeeds, appends its message to that same
  conversation and adds no conversation. A send by the owner about the owner's own
  listing is rejected as a self-message and changes nothing.
\<close>

theorem send_message_same_thread:
  assumes run: "trace_ok dump empty_manager xs" "m = run dump empty_manager xs"
    and item: "map_of (listings (data m)) iid = Some item" and ne: "s \<noteq> owner item"
    and fresh: "op_ok m (SendMessage iid s x t u)"
  shows "\<exists>m1 k c. send_message_api dump m iid s x t u = (Inr (), m1)
     \<and> filter (in_thread iid s (owner item)) (conversations (data m1)) = [(k, c)]
     \<and> (filter (in_thread iid s (owner item)) (conversations (data m)) = [] \<longrightarrow>
          conversations (data m1) = conversations (data m) @ [(k, c)] \<and> k = u
          \<and> c = new_conversation u iid s (owner item) (new_message s x t))
     \<and> (\<forall>x' t' u'. \<exists>m2. send_message_api dump m1 iid s x' t' u' = (Inr (), m2)
           \<and> map fst (conversations (data m2)) = map fst (conversations (data m1))
           \<and> filter (in_thread iid s (owner item)) (conversations (data m2))
               = [(k, c\<lparr>messages := messages c @ [new_message s x' t']\<rparr>)])
     \<and> (\<forall>x' t' u'. send_message_api dump m1 iid (owner item) x' t' u' = (Inl SelfMessage, m1))"
proof -
  have ok: "store_ok (data m)"
    unfolding run(2) using store_ok_empty run(1) by (rule store_ok_run)
  have u: "u \<noteq> []" "u \<notin> set (map fst (conversations (data m)))"
    using fresh by (auto dest: is_uuid_nonempty)
  let ?P = "in_thread iid s (owner item)"
  have le1: "length (filter ?P (conversations (data m))) \<le> 1"
    using ok by (intro thread_filter_le1) (simp add: store_ok_def)
  have first: "\<exists>m1 k c. send_message_api dump m iid s x t u = (Inr (), m1)
      \<and> listings (data m1) = listings (data m)
      \<and> filter ?P (conversations (data m1)) = [(k, c)]
      \<and> (filter ?P (conversations (data m)) = [] \<longrightarrow>
          conversations (data m1) = conversations (data m) @ [(k, c)] \<and> k = u
          \<and> c = new_conversation u iid s (owner item) (new_message s x t))"
  proof (cases "filter ?P (conversations (data m))")
    case Nil
    from send_create [OF ok item ne Nil u(2), of dump x t] Nil show ?thesis by auto
  next
    case (Cons kc rest)
    with le1 have "rest = []" by simp
    with Cons have "filter ?P (conversations (data m)) = [(fst kc, snd kc)]" by simp
    from send_reuse [OF ok item ne this, of dump x t u] Cons show ?thesis by auto
  qed
  then obtain m1 k c where m1: "send_message_api dump m iid s x t u = (Inr (), m1)"
    and ls: "listings (data m1) = listings (data m)"
    and one: "filter ?P (conversations (data m1)) = [(k, c)]"
    and fst: "filter ?P (conversations (data m)) = [] \<longrightarrow>
          conversations (data m1) = conversations (data m) @ [(k, c)] \<and> k = u
          \<and> c = new_conversation u iid s (owner item) (new_message s x t)"
    by blast
  have ok1: "store_ok (data m1)"
    using store_ok_send [OF ok u, of dump iid s x t] m1 by simp
  have item1: "map_of (listings (data m1)) iid = Some item"
    using item ls by simp
  have again: "\<exists>m2. send_message_api dump m1 iid s x' t' u' = (Inr (), m2)
           \<and> map fst (conversations (data m2)) = map fst (conversations (data m1))
           \<and> filter ?P (conversations (data m2))
               = [(k, c\<lparr>messages := messages c @ [new_message s x' t']\<rparr>)]" for x' t' u'
    using send_reuse [OF ok1 item1 ne one, of dump x' t' u'] by blast
  have self: "send_message_api dump m1 iid (owner item) x' t' u' = (Inl SelfMessage, m1)" for x' t' u'
    using item1 by (rule send_self)
  from m1 one fst again self show ?thesis by blast
qed

theorem send_message_same_thread_witness:
  "trace_ok (\<lambda>d. d) (empty_manager :: store manager) [CreateListing chair ''alice'' L1]
     \<and> map_of (listings (data listed)) L1 = Some chair_listing
     \<and> ''bob'' \<noteq> owner chair_listing
     \<and> op_ok listed (SendMessage L1 ''bob'' ''interested!'' 100 C1)
     \<and> (\<exists>m1 k c. send_message_api (\<lambda>d. d) listed L1 ''bob'' ''interested!'' 100 C1 = (Inr (), m1)
           \<and> filter (in_thread L1 ''bob'' (owner chair_listing)) (conversations (data m1)) = [(k, c)])"
proof -
  have t: "trace_ok (\<lambda>d. d) (empty_manager :: store manager) [CreateListing chair ''alice'' L1]"
    by code_simp
  have m: "listed = run (\<lambda>d. d) empty_manager [CreateListing chair ''alice'' L1]"
    by (simp add: listed_def)
  have item: "map_of (listings (data listed)) L1 = Some chair_listing"
    by code_simp
  have ne: "''bob'' \<noteq> owner chair_listing"
    by code_simp
  have fresh: "op_ok listed (SendMessage L1 ''bob'' ''interested!'' 100 C1)"
    by code_simp
  from send_message_same_thread [OF t m item ne fresh] t item ne fresh show ?thesis
    by blast
qed

text \<open>
  The claim as stated fails: bob's first message about alice's chair is accepted, and
  the reply of alice (the owner) about the same item is not appended but rejected.
\<close>

theorem owner_reply_counterexample:
  "map_of (listings (data listed)) L1 = Some chair_listing
     \<and> owner chair_listing = ''alice'' \<and> ''bob'' \<noteq> ''alice''
     \<and> send_message_api (\<lambda>d. d) listed L1 ''bob'' ''interested!'' 100 C1 = (Inr (), asked)
     \<and> send_message_api (\<lambda>d. d) asked L1 ''alice'' ''yes, it is'' 200 C2 = (Inl SelfMessage, asked)"
  by code_simp

section \<open>The inbox\<close>

lemma count_unread_fold:
  "fold (\<lambda>msg n. if \<not> read msg \<and> sender msg \<noteq> u then n + 1 else n) msgs k
     = k + length (filter (is_unread_for u) msgs)"
  by (induction msgs arbitrary: k) (auto simp: is_unread_for_def)

lemma count_unread_filter: "count_unread u msgs = length (filter (is_unread_for u) msgs)"
  by (simp add: count_unread_def count_unread_fold)

lemma summarise_ok:
  assumes "convo_ok kc" "u \<in> set (participants (snd kc))"
  shows "\<exists>s. summarise ls u kc = Inr s \<and> convo_id s = fst kc
     \<and> unread_count s = length (filter (is_unread_for u) (messages (snd kc)))
     \<and> last_message s = last (messages (snd kc))"
proof -
  from assms(1) obtain a b where ab: "participants (snd kc) = [a, b]" "a \<noteq> b"
    by (auto simp: convo_ok_def length_Suc_conv numeral_2_eq_2)
  then have "find (\<lambda>p. p \<noteq> u) (participants (snd kc)) \<noteq> None"
    by (auto simp: find_None_iff)
  moreover have "messages (snd kc) \<noteq> []" using assms(1) by (simp add: convo_ok_def)
  ultimately show ?thesis
    by (auto simp: summarise_def Let_def count_unread_filter)
qed

lemma inbox_loop_ok:
  assumes "list_all convo_ok cs"
  shows "\<exists>ss. inbox_loop ls u cs = Inr ss
     \<and> map convo_id ss = map fst (filter (\<lambda>kc. u \<in> set (participants (snd kc))) cs)
     \<and> (\<forall>s \<in> set ss. \<exists>c. (convo_id s, c) \<in> set cs
           \<and> unread_count s = length (filter (is_unread_for u) (messages c))
           \<and> last_message s = last (messages c))"
  using assms
proof (induction cs)
  case Nil
  then show ?case by simp
next
  case (Cons kc cs)
  then obtain ss where ss: "inbox_loop ls u cs = Inr ss"
     "map convo_id ss = map fst (filter (\<lambda>kc. u \<in> set (participants (snd kc))) cs)"
     "\<forall>s \<in> set ss. \<exists>c. (convo_id s, c) \<in> set cs
           \<and> unread_count s = length (filter (is_unread_for u) (messages c))
           \<and> last_message s = last (messages c)"
    by auto
  show ?case
  proof (cases "u \<in> set (participants (snd kc))")
    case False
    have "\<forall>s \<in> set ss. \<exists>c. (convo_id s, c) \<in> set (kc # cs)
           \<and> unread_count s = length (filter (is_unread_for u) (messages c))
           \<and> last_message s = last (messages c)"
      using ss(3) by (metis list.set_intros(2))
    with ss(1,2) False show ?thesis by simp
  next
    case True
    from Cons.prems have "convo_ok kc" by simp
    from summarise_ok [OF this True, of ls] obtain s where s: "summarise ls u kc = Inr s"
      "convo_id s = fst kc"
      "unread_count s = length (filter (is_unread_for u) (messages (snd kc)))"
      "last_message s = last (messages (snd kc))"
      by blast
    have 1: "\<exists>c. (convo_id s, c) \<in> set (kc # cs)
           \<and> unread_count s = length (filter (is_unread_for u) (messages c))
           \<and> last_message s = last (messages c)"
      using s by (intro exI [of _ "snd kc"]) simp
    have 2: "\<forall>s \<in> set ss. \<exists>c. (convo_id s, c) \<in> set (kc # cs)
           \<and> unread_count s = length (filter (is_unread_for u) (messages c))
           \<and> last_message s = last (messages c)"
      using ss(3) by (metis list.set_intros(2))
    have "inbox_loop ls u (kc # cs) = Inr (s # ss)"
      using True s(1) ss(1) by simp
    moreover have "map convo_id (s # ss)
        = map fst (filter (\<lambda>kc. u \<in> set (participants (snd kc))) (kc # cs))"
      using True s(2) ss(2) by simp
    moreover have "\<forall>s' \<in> set (s # ss). \<exists>c. (convo_id s', c) \<in> set (kc # cs)
           \<and> unread_count s' = length (filter (is_unread_for u) (messages c))
           \<and> last_message s' = last (messages c)"
      using 1 2 by simp
    ultimately show ?thesis by blast
  qed
qed

lemma set_sort_reverse: "set (sort_reverse k xs) = set xs"
  by (simp add: sort_reverse_def)

lemma distinct_map_sort_reverse:
  "distinct (map f xs) \<Longrightarrow> distinct (map f (sort_reverse k xs))"
  by (simp add: sort_reverse_def distinct_map)

lemma inbox_spec:
  assumes ok: "store_ok (data m)"
  shows "\<exists>ss. get_inbox_api m u = Inr ss
     \<and> distinct (map convo_id ss)
     \<and> set (map convo_id ss)
          = set (map fst (filter (\<lambda>kc. u \<in> set (participants (snd kc))) (conversations (data m))))
     \<and> (\<forall>s \<in> set ss. \<exists>c. map_of (conversations (data m)) (convo_id s) = Some c
           \<and> unread_count s = length (filter (is_unread_for u) (messages c)))"
proof -
  let ?cs = "conversations (data m)"
  have all: "list_all convo_ok ?cs" and dist: "distinct (map fst ?cs)"
    using ok by (simp_all add: store_ok_def)
  from inbox_loop_ok [OF all, of "listings (data m)" u] obtain ss where
    ss: "inbox_loop (listings (data m)) u ?cs = Inr ss"
      "map convo_id ss = map fst (filter (\<lambda>kc. u \<in> set (participants (snd kc))) ?cs)"
      "\<forall>s \<in> set ss. \<exists>c. (convo_id s, c) \<in> set ?cs
           \<and> unread_count s = length (filter (is_unread_for u) (messages c))
           \<and> last_message s = last (messages c)"
    by blast
  let ?r = "sort_reverse (\<lambda>x. timestamp (last_message x)) ss"
  have r: "get_inbox_api m u = Inr ?r"
    using ss(1) by (simp add: get_inbox_api_def)
  have "distinct (map fst (filter (\<lambda>kc. u \<in> set (participants (snd kc))) ?cs))"
    using dist by (rule distinct_map_filter)
  then have d: "distinct (map convo_id ?r)"
    using ss(2) by (intro distinct_map_sort_reverse) simp
  have s: "set (map convo_id ?r) = set (map fst (filter (\<lambda>kc. u \<in> set (participants (snd kc))) ?cs))"
  proof -
    have "set (map convo_id ?r) = set (map convo_id ss)"
      by (simp add: set_sort_reverse)
    then show ?thesis by (simp only: ss(2))
  qed
  have "\<forall>s \<in> set ?r. \<exists>c. map_of ?cs (convo_id s) = Some c
           \<and> unread_count s = length (filter (is_unread_for u) (messages c))"
  proof
    fix s assume "s \<in> set ?r"
    then have "s \<in> set ss" by (simp add: set_sort_reverse)
    with ss(3) obtain c where c: "(convo_id s, c) \<in> set ?cs"
      "unread_count s = length (filter (is_unread_for u) (messages c))" by blast
    from dist c(1) have "map_of ?cs (convo_id s) = Some c" by (rule map_of_is_SomeI)
    with c(2) show "\<exists>c. map_of ?cs (convo_id s) = Some c
           \<and> unread_count s = length (filter (is_unread_for u) (messages c))" by blast
  qed
  with r d s show ?thesis by blast
qed


lemma inbox_unread_eq:
  assumes ok: "store_ok (data m)" and c: "map_of (conversations (data m)) k = Some c"
    and u: "u \<in> set (participants c)"
  shows "inbox_unread m u k = Some (length (filter (is_unread_for u) (messages c)))"
proof -
  from inbox_spec [OF ok, of u] obtain ss where ss: "get_inbox_api m u = Inr ss"
    "set (map convo_id ss)
       = set (map fst (filter (\<lambda>kc. u \<in> set (participants (snd kc))) (conversations (data m))))"
    "\<forall>s \<in> set ss. \<exists>c. map_of (conversations (data m)) (convo_id s) = Some c
           \<and> unread_count s = length (filter (is_unread_for u) (messages c))"
    by blast
  have "(k, c) \<in> set (conversations (data m))" using c by (rule map_of_SomeD)
  with u have "k \<in> set (map convo_id ss)" unfolding ss(2) by force
  then have "find (\<lambda>s. convo_id s = k) ss \<noteq> None"
    by (auto simp: find_None_iff)
  then obtain s where s: "find (\<lambda>s. convo_id s = k) ss = Some s" by blast
  then have "s \<in> set ss" "convo_id s = k"
    by (auto simp: find_Some_iff)
  with ss(3) c have "unread_count s = length (filter (is_unread_for u) (messages c))" by auto
  with ss(1) s show ?thesis by (simp add: inbox_unread_def)
qed

lemma unread_after_mark: "filter (is_unread_for u) (mark_read u msgs) = []"
  by (induction msgs) (auto simp: mark_read_def is_unread_for_def)

lemma get_conversation_result:
  assumes c: "map_of (conversations (data m)) cid = Some c" and u: "u \<in> set (participants c)"
  shows "\<exists>m'. get_conversation_api dump m cid u
        = (Inr (c\<lparr>messages := mark_read u (messages c),
                   item_info := Some (map_of (listings (data m)) (item_id c))\<rparr>), m')
     \<and> listings (data m') = listings (data m)
     \<and> map_of (conversations (data m')) cid
          = Some (c\<lparr>messages := mark_read u (messages c),
                     item_info := Some (map_of (listings (data m)) (item_id c))\<rparr>)"
  using c u
  by (simp add: get_conversation_api_def Let_def save_data_def AList.map_of_map_entry)


lemma fresh_conversation_unread:
  assumes ok: "store_ok (data m)" and item: "map_of (listings (data m)) iid = Some item"
    and ne: "s \<noteq> owner item"
    and none: "filter (in_thread iid s (owner item)) (conversations (data m)) = []"
    and fresh: "op_ok m (SendMessage iid s x t u)"
  shows "inbox_unread (snd (send_message_api dump m iid s x t u)) (owner item) u = Some 1"
    and "inbox_unread (snd (send_message_api dump m iid s x t u)) s u = Some 0"
    and "inbox_unread (snd (get_conversation_api dump (snd (send_message_api dump m iid s x t u))
            u (owner item))) (owner item) u = Some 0"
proof -
  let ?c = "new_conversation u iid s (owner item) (new_message s x t)"
  let ?m1 = "snd (send_message_api dump m iid s x t u)"
  have u: "u \<noteq> []" "u \<notin> set (map fst (conversations (data m)))"
    using fresh by (auto dest: is_uuid_nonempty)
  from send_create [OF ok item ne none u(2), of dump x t]
  have cs1: "conversations (data ?m1) = conversations (data m) @ [(u, ?c)]" by auto
  have ok1: "store_ok (data ?m1)" using ok u by (rule store_ok_send)
  have "map_of (conversations (data m)) u = None"
    using u(2) by (simp add: map_of_eq_None_iff)
  then have c1: "map_of (conversations (data ?m1)) u = Some ?c"
    by (simp add: cs1 map_add_Some_iff)
  have p: "owner item \<in> set (participants ?c)" "s \<in> set (participants ?c)"
    by (simp_all add: new_conversation_def)
  have "filter (is_unread_for (owner item)) (messages ?c) = [new_message s x t]"
    using ne by (simp add: new_conversation_def new_message_def is_unread_for_def)
  with inbox_unread_eq [OF ok1 c1 p(1)]
  show "inbox_unread ?m1 (owner item) u = Some 1" by simp
  have "filter (is_unread_for s) (messages ?c) = []"
    by (simp add: new_conversation_def new_message_def is_unread_for_def)
  with inbox_unread_eq [OF ok1 c1 p(2)]
  show "inbox_unread ?m1 s u = Some 0" by simp
  let ?m2 = "snd (get_conversation_api dump ?m1 u (owner item))"
  let ?c2 = "?c\<lparr>messages := mark_read (owner item) (messages ?c),
                 item_info := Some (map_of (listings (data ?m1)) (item_id ?c))\<rparr>"
  from get_conversation_result [OF c1 p(1), of dump]
  have c2: "map_of (conversations (data ?m2)) u = Some ?c2" by auto
  have ok2: "store_ok (data ?m2)" using ok1 by (rule store_ok_get_conversation)
  have p2: "owner item \<in> set (participants ?c2)" using p(1) by simp
  from inbox_unread_eq [OF ok2 c2 p2]
  show "inbox_unread ?m2 (owner item) u = Some 0"
    by (simp add: unread_after_mark)
qed

text \<open>
  C3. In every reachable state \<open>get_inbox_api\<close> returns, for a user, one summary for
  each conversation the user takes part in and for no other, and a summary's
  \<open>unread_count\<close> is the number of the conversation's messages that are not read and
  were sent by somebody else. When a first message about a listing creates a
  conversation, the owner's inbox shows it with unread count 1 (the sender's with 0),
  and with 0 once the owner has called \<open>get_conversation_api\<close> on it.
\<close>

theorem inbox_summaries:
  assumes run: "trace_ok dump empty_manager xs" "m = run dump empty_manager xs"
  shows "(\<exists>ss. get_inbox_api m U = Inr ss
        \<and> distinct (map convo_id ss)
        \<and> set (map convo_id ss)
            = set (map fst (filter (\<lambda>kc. U \<in> set (participants (snd kc))) (conversations (data m))))
        \<and> (\<forall>s \<in> set ss. \<exists>c. map_of (conversations (data m)) (convo_id s) = Some c
              \<and> unread_count s = length (filter (is_unread_for U) (messages c))))
     \<and> (\<forall>iid item s x t u.
           map_of (listings (data m)) iid = Some item \<and> owner item = U \<and> s \<noteq> U
             \<and> filter (in_thread iid s U) (conversations (data m)) = []
             \<and> op_ok m (SendMessage iid s x t u) \<longrightarrow>
           inbox_unread (snd (send_message_api dump m iid s x t u)) U u = Some 1
             \<and> inbox_unread (snd (send_message_api dump m iid s x t u)) s u = Some 0
             \<and> inbox_unread (snd (get_conversation_api dump
                   (snd (send_message_api dump m iid s x t u)) u U)) U u = Some 0)"
proof -
  have ok: "store_ok (data m)"
    unfolding run(2) using store_ok_empty run(1) by (rule store_ok_run)
  have scen: "inbox_unread (snd (send_message_api dump m iid s x t u)) U u = Some 1
             \<and> inbox_unread (snd (send_message_api dump m iid s x t u)) s u = Some 0
             \<and> inbox_unread (snd (get_conversation_api dump
                   (snd (send_message_api dump m iid s x t u)) u U)) U u = Some 0"
    if "map_of (listings (data m)) iid = Some item \<and> owner item = U \<and> s \<noteq> U
             \<and> filter (in_thread iid s U) (conversations (data m)) = []
             \<and> op_ok m (SendMessage iid s x t u)" for iid item s x t u
    using that fresh_conversation_unread [OF ok, of iid item s x t u dump] by simp
  show ?thesis
  proof (rule conjI)
    show "\<exists>ss. get_inbox_api m U = Inr ss
        \<and> distinct (map convo_id ss)
        \<and> set (map convo_id ss)
            = set (map fst (filter (\<lambda>kc. U \<in> set (participants (snd kc))) (conversations (data m))))
        \<and> (\<forall>s \<in> set ss. \<exists>c. map_of (conversations (data m)) (convo_id s) = Some c
              \<and> unread_count s = length (filter (is_unread_for U) (messages c)))"
      using ok by (rule inbox_spec)
  next
    show "\<forall>iid item s x t u.
           map_of (listings (data m)) iid = Some item \<and> owner item = U \<and> s \<noteq> U
             \<and> filter (in_thread iid s U) (conversations (data m)) = []
             \<and> op_ok m (SendMessage iid s x t u) \<longrightarrow>
           inbox_unread (snd (send_message_api dump m iid s x t u)) U u = Some 1
             \<and> inbox_unread (snd (send_message_api dump m iid s x t u)) s u = Some 0
             \<and> inbox_unread (snd (get_conversation_api dump
                   (snd (send_message_api dump m iid s x t u)) u U)) U u = Some 0"
      using scen by (intro allI impI)
  qed
qed

theorem inbox_summaries_witness:
  "trace_ok (\<lambda>d. d) (empty_manager :: store manager) [CreateListing chair ''alice'' L1]
     \<and> map_of (listings (data listed)) L1 = Some chair_listing
     \<and> owner chair_listing = ''alice'' \<and> ''bob'' \<noteq> ''alice''
     \<and> filter (in_thread L1 ''bob'' ''alice'') (conversations (data listed)) = []
     \<and> op_ok listed (SendMessage L1 ''bob'' ''interested!'' 100 C1)
     \<and> inbox_unread (snd (send_message_api (\<lambda>d. d) listed L1 ''bob'' ''interested!'' 100 C1))
           ''alice'' C1 = Some 1
     \<and> inbox_unread (snd (get_conversation_api (\<lambda>d. d)
           (snd (send_message_api (\<lambda>d. d) listed L1 ''bob'' ''interested!'' 100 C1)) C1 ''alice''))
           ''alice'' C1 = Some 0
     \<and> (\<exists>ss. get_inbox_api listed ''alice'' = Inr ss)"
proof -
  have t: "trace_ok (\<lambda>d. d) (empty_manager :: store manager) [CreateListing chair ''alice'' L1]"
    by code_simp
  have m: "listed = run (\<lambda>d. d) empty_manager [CreateListing chair ''alice'' L1]"
    by (simp add: listed_def)
  have h1: "map_of (listings (data listed)) L1 = Some chair_listing"
    by code_simp
  have h2: "owner chair_listing = ''alice''"
    by code_simp
  have h3: "''bob'' \<noteq> ''alice''"
    by simp
  have "conversations (data listed) = []"
    by code_simp
  then have h4: "filter (in_thread L1 ''bob'' ''alice'') (conversations (data listed)) = []"
    by simp
  have h5: "op_ok listed (SendMessage L1 ''bob'' ''interested!'' 100 C1)"
    by code_simp
  note T = inbox_summaries [OF t m, of "''alice''"]
  from T [THEN conjunct1] have ex: "\<exists>ss. get_inbox_api listed ''alice'' = Inr ss"
    by (elim exE conjE) (rule exI)
  have h: "map_of (listings (data listed)) L1 = Some chair_listing
     \<and> owner chair_listing = ''alice'' \<and> ''bob'' \<noteq> ''alice''
     \<and> filter (in_thread L1 ''bob'' ''alice'') (conversations (data listed)) = []
     \<and> op_ok listed (SendMessage L1 ''bob'' ''interested!'' 100 C1)"
    using h1 h2 h3 h4 h5 by (intro conjI)
  note U = T [THEN conjunct2, THEN spec, THEN spec, THEN spec, THEN spec, THEN spec, THEN spec,
      THEN mp, OF h]
  from U [THEN conjunct1]
  have u1: "inbox_unread (snd (send_message_api (\<lambda>d. d) listed L1 ''bob'' ''interested!'' 100 C1))
           ''alice'' C1 = Some 1" .
  from U [THEN conjunct2, THEN conjunct2]
  have u2: "inbox_unread (snd (get_conversation_api (\<lambda>d. d)
           (snd (send_message_api (\<lambda>d. d) listed L1 ''bob'' ''interested!'' 100 C1)) C1 ''alice''))
           ''alice'' C1 = Some 0" .
  from t h1 h2 h3 h4 h5 u1 u2 ex show ?thesis
    by (intro conjI)
qed

section \<open>Opening a conversation\<close>

lemma map_entry_id:
  "map_of xs k = Some v \<Longrightarrow> f v = v \<Longrightarrow> AList.map_entry k f xs = xs"
  by (induction xs) (auto split: if_splits)

lemma mark_read_length: "length (mark_read u msgs) = length msgs"
  by (simp add: mark_read_def)

lemma mark_read_nth:
  "i < length msgs \<Longrightarrow>
     sender (mark_read u msgs ! i) = sender (msgs ! i)
     \<and> content (mark_read u msgs ! i) = content (msgs ! i)
     \<and> timestamp (mark_read u msgs ! i) = timestamp (msgs ! i)
     \<and> read (mark_read u msgs ! i) = (read (msgs ! i) \<or> sender (msgs ! i) \<noteq> u)"
  by (simp add: mark_read_def)

lemma mark_read_idem: "mark_read u (mark_read u msgs) = mark_read u msgs"
  by (induction msgs) (auto simp: mark_read_def)

lemma count_unread_marked: "count_unread u (mark_read u msgs) = 0"
  by (simp add: count_unread_filter unread_after_mark)

lemma get_conversation_success:
  assumes "get_conversation_api dump m cid u = (Inr c1, m1)"
  shows "\<exists>c. map_of (conversations (data m)) cid = Some c \<and> u \<in> set (participants c)"
  using assms
  by (auto simp: get_conversation_api_def Let_def split: option.splits if_splits)

text \<open>
  C4. A successful \<open>get_conversation_api\<close> returns the stored conversation with the same
  messages in the same order, sender, content and timestamp untouched, and a message is
  read afterwards exactly when it was read before or its sender is not the caller. The
  caller's unread count of the result is 0, and the same call made again at once
  returns the same conversation and leaves the store in memory as it is.
\<close>

theorem get_conversation_marks_and_repeats:
  assumes "get_conversation_api dump m cid u = (Inr c1, m1)"
  shows "\<exists>c. map_of (conversations (data m)) cid = Some c
       \<and> length (messages c1) = length (messages c)
       \<and> (\<forall>i < length (messages c).
             sender (messages c1 ! i) = sender (messages c ! i)
             \<and> content (messages c1 ! i) = content (messages c ! i)
             \<and> timestamp (messages c1 ! i) = timestamp (messages c ! i)
             \<and> read (messages c1 ! i) = (read (messages c ! i) \<or> sender (messages c ! i) \<noteq> u))
       \<and> map_of (conversations (data m1)) cid = Some c1
       \<and> count_unread u (messages c1) = 0
       \<and> (\<exists>m2. get_conversation_api dump m1 cid u = (Inr c1, m2) \<and> data m2 = data m1)"
proof -
  from get_conversation_success [OF assms] obtain c where
    c: "map_of (conversations (data m)) cid = Some c" and u: "u \<in> set (participants c)"
    by blast
  let ?c1 = "c\<lparr>messages := mark_read u (messages c),
                item_info := Some (map_of (listings (data m)) (item_id c))\<rparr>"
  from get_conversation_result [OF c u, of dump] assms
  have c1: "c1 = ?c1" and ls: "listings (data m1) = listings (data m)"
    and st: "map_of (conversations (data m1)) cid = Some c1"
    by auto
  have len: "length (messages c1) = length (messages c)"
    by (simp add: c1 mark_read_length)
  have nth: "\<forall>i < length (messages c).
             sender (messages c1 ! i) = sender (messages c ! i)
             \<and> content (messages c1 ! i) = content (messages c ! i)
             \<and> timestamp (messages c1 ! i) = timestamp (messages c ! i)
             \<and> read (messages c1 ! i) = (read (messages c ! i) \<or> sender (messages c ! i) \<noteq> u)"
    using mark_read_nth [of _ "messages c" u] by (simp add: c1)
  have zero: "count_unread u (messages c1) = 0"
    by (simp add: c1 count_unread_marked)
  have u1: "u \<in> set (participants c1)" using u by (simp add: c1)
  have f1: "c1\<lparr>messages := mark_read u (messages c1)\<rparr> = c1"
    by (simp add: c1 mark_read_idem)
  have f2: "c1\<lparr>item_info := Some (map_of (listings (data m1)) (item_id c1))\<rparr> = c1"
    by (simp add: c1 ls)
  have e1: "AList.map_entry cid (\<lambda>c. c\<lparr>messages := mark_read u (messages c)\<rparr>)
      (conversations (data m1)) = conversations (data m1)"
    using st f1 by (rule map_entry_id)
  have e2: "AList.map_entry cid (\<lambda>c. c\<lparr>item_info := Some (map_of (listings (data m1)) (item_id c1))\<rparr>)
      (conversations (data m1)) = conversations (data m1)"
    using st f2 by (rule map_entry_id)
  have again: "\<exists>m2. get_conversation_api dump m1 cid u = (Inr c1, m2) \<and> data m2 = data m1"
    using st u1 e1 e2 f1 f2
    by (simp add: get_conversation_api_def Let_def save_data_def mark_read_idem c1 ls)
  from c len nth st zero again show ?thesis by blast
qed

theorem get_conversation_marks_and_repeats_witness:
  "get_conversation_api (\<lambda>d. d) asked C1 ''alice'' = (Inr opened_convo, opened)
     \<and> map_of (conversations (data opened)) C1 = Some opened_convo
     \<and> count_unread ''alice'' (messages opened_convo) = 0
     \<and> (\<exists>m2. get_conversation_api (\<lambda>d. d) opened C1 ''alice'' = (Inr opened_convo, m2)
           \<and> data m2 = data opened)"
proof -
  have h: "get_conversation_api (\<lambda>d. d) asked C1 ''alice'' = (Inr opened_convo, opened)"
    by code_simp
  from get_conversation_marks_and_repeats [OF h]
  have "map_of (conversations (data opened)) C1 = Some opened_convo
     \<and> count_unread ''alice'' (messages opened_convo) = 0
     \<and> (\<exists>m2. get_conversation_api (\<lambda>d. d) opened C1 ''alice'' = (Inr opened_convo, m2)
           \<and> data m2 = data opened)"
    by (elim exE conjE) (intro conjI exI, assumption+)
  with h show ?thesis
    by (rule conjI)
qed

section \<open>Rejected calls\<close>

text \<open>
  C5. A call that returns an error returns the manager it was given, the dictionary
  in memory and the file alike: \<open>create_listing_api\<close> fails only with the validation
  error, \<open>send_message_api\<close> only with item-not-found or self-message,
  \<open>get_conversation_api\<close> only with conversation-not-found or unauthorized. A message
  whose sender is the listing's owner fails with the self-message error.
\<close>

theorem errors_change_nothing:
  "(fst (create_listing_api dump m item_data own u) = Inl e1 \<longrightarrow>
      create_listing_api dump m item_data own u = (Inl ValidationFailed, m))
   \<and> (fst (send_message_api dump m iid s x t u) = Inl e \<longrightarrow>
        (e = ItemNotFound \<or> e = SelfMessage) \<and> send_message_api dump m iid s x t u = (Inl e, m))
   \<and> (fst (get_conversation_api dump m cid usr) = Inl e3 \<longrightarrow>
        (e3 = ConversationNotFound \<or> e3 = Unauthorized)
        \<and> get_conversation_api dump m cid usr = (Inl e3, m))
   \<and> (\<forall>item. map_of (listings (data m)) iid = Some item \<and> owner item = s \<longrightarrow>
        send_message_api dump m iid s x t u = (Inl SelfMessage, m))"
proof (intro conjI impI allI)
  assume "fst (create_listing_api dump m item_data own u) = Inl e1"
  then show "create_listing_api dump m item_data own u = (Inl ValidationFailed, m)"
    by (simp add: create_listing_api_def Let_def split: if_splits)
next
  assume a: "fst (send_message_api dump m iid s x t u) = Inl e"
  then show "e = ItemNotFound \<or> e = SelfMessage"
    by (auto simp: send_message_api_def Let_def split: option.splits if_splits)
  from a show "send_message_api dump m iid s x t u = (Inl e, m)"
    by (auto simp: send_message_api_def Let_def split: option.splits if_splits)
next
  assume a: "fst (get_conversation_api dump m cid usr) = Inl e3"
  then show "e3 = ConversationNotFound \<or> e3 = Unauthorized"
    by (auto simp: get_conversation_api_def Let_def split: option.splits if_splits)
  from a show "get_conversation_api dump m cid usr = (Inl e3, m)"
    by (auto simp: get_conversation_api_def Let_def split: option.splits if_splits)
next
  fix item assume "map_of (listings (data m)) iid = Some item \<and> owner item = s"
  then show "send_message_api dump m iid s x t u = (Inl SelfMessage, m)"
    by (auto simp: send_message_api_def)
qed

theorem errors_change_nothing_witness:
  "fst (create_listing_api (\<lambda>d. d) asked lamp ''bob'' C2) = Inl ValidationFailed
     \<and> create_listing_api (\<lambda>d. d) asked lamp ''bob'' C2 = (Inl ValidationFailed, asked)
     \<and> fst (send_message_api (\<lambda>d. d) asked L1 ''alice'' ''hello'' 200 C2) = Inl SelfMessage
     \<and> send_message_api (\<lambda>d. d) asked L1 ''alice'' ''hello'' 200 C2 = (Inl SelfMessage, asked)
     \<and> fst (get_conversation_api (\<lambda>d. d) asked C1 ''carol'') = Inl Unauthorized
     \<and> get_conversation_api (\<lambda>d. d) asked C1 ''carol'' = (Inl Unauthorized, asked)
     \<and> map_of (listings (data asked)) L1 = Some chair_listing \<and> owner chair_listing = ''alice''"
proof -
  have h1: "fst (create_listing_api (\<lambda>d. d) asked lamp ''bob'' C2) = Inl ValidationFailed"
    by code_simp
  have h2: "fst (send_message_api (\<lambda>d. d) asked L1 ''alice'' ''hello'' 200 C2) = Inl SelfMessage"
    by code_simp
  have h3: "fst (get_conversation_api (\<lambda>d. d) asked C1 ''carol'') = Inl Unauthorized"
    by code_simp
  have h4: "map_of (listings (data asked)) L1 = Some chair_listing"
    by code_simp
  have h5: "owner chair_listing = ''alice''"
    by code_simp
  note E = errors_change_nothing [of "\<lambda>d. d" asked lamp "''bob''" C2 ValidationFailed
      L1 "''alice''" "''hello''" 200 SelfMessage C1 "''carol''" Unauthorized]
  from E [THEN conjunct1, THEN mp, OF h1]
  have c1: "create_listing_api (\<lambda>d. d) asked lamp ''bob'' C2 = (Inl ValidationFailed, asked)" .
  from E [THEN conjunct2, THEN conjunct1, THEN mp, OF h2, THEN conjunct2]
  have c2: "send_message_api (\<lambda>d. d) asked L1 ''alice'' ''hello'' 200 C2 = (Inl SelfMessage, asked)" .
  from E [THEN conjunct2, THEN conjunct2, THEN conjunct1, THEN mp, OF h3, THEN conjunct2]
  have c3: "get_conversation_api (\<lambda>d. d) asked C1 ''carol'' = (Inl Unauthorized, asked)" .
  from h1 c1 h2 c2 h3 c3 h4 h5 show ?thesis
    by (intro conjI)
qed

section \<open>The order of the inbox\<close>

lemma sort_reverse_sorted:
  "sorted_wrt (\<lambda>a b. k b \<le> k a) (sort_reverse k xs)"
proof -
  have "sorted_wrt (\<lambda>a b. k a \<le> k b) (sort_key k (rev xs))"
    using sorted_sort_key [of k "rev xs"] by (simp add: sorted_map)
  then show ?thesis
    by (simp add: sort_reverse_def sorted_wrt_rev)
qed

lemma sort_reverse_stable:
  "filter (\<lambda>x. k x = t) (sort_reverse k xs) = filter (\<lambda>x. k x = t) xs"
  by (simp add: sort_reverse_def rev_filter [symmetric] sort_key_stable)

lemma summarise_convo_id: "summarise ls u kc = Inr s \<Longrightarrow> convo_id s = fst kc"
  by (auto simp: summarise_def Let_def split: option.splits if_splits)

lemma inbox_loop_ids:
  "inbox_loop ls u cs = Inr us \<Longrightarrow>
     map convo_id us = map fst (filter (\<lambda>kc. u \<in> set (participants (snd kc))) cs)"
proof (induction cs arbitrary: us)
  case Nil
  then show ?case by simp
next
  case (Cons kc cs)
  show ?case
  proof (cases "u \<in> set (participants (snd kc))")
    case False
    with Cons show ?thesis by simp
  next
    case True
    with Cons.prems obtain s ss where s: "summarise ls u kc = Inr s"
      and ss: "inbox_loop ls u cs = Inr ss" and us: "us = s # ss"
      by (auto split: sum.splits)
    from Cons.IH [OF ss] summarise_convo_id [OF s] True us show ?thesis by simp
  qed
qed

lemma summarise_last:
  "summarise ls u kc = Inr s \<Longrightarrow>
     convo_id s = fst kc \<and> last_message s = last (messages (snd kc))"
  by (auto simp: summarise_def Let_def split: option.splits if_splits)

lemma inbox_loop_last:
  "inbox_loop ls u cs = Inr us \<Longrightarrow>
     map (\<lambda>s. (convo_id s, last_message s)) us
       = map (\<lambda>kc. (fst kc, last (messages (snd kc))))
           (filter (\<lambda>kc. u \<in> set (participants (snd kc))) cs)"
proof (induction cs arbitrary: us)
  case Nil
  then show ?case by simp
next
  case (Cons kc cs)
  show ?case
  proof (cases "u \<in> set (participants (snd kc))")
    case False
    with Cons show ?thesis by simp
  next
    case True
    with Cons.prems obtain s ss where s: "summarise ls u kc = Inr s"
      and ss: "inbox_loop ls u cs = Inr ss" and us: "us = s # ss"
      by (auto split: sum.splits)
    from Cons.IH [OF ss] summarise_last [OF s] True us show ?thesis by simp
  qed
qed

lemma summary_of_conversation:
  assumes pairs: "map (\<lambda>s. (convo_id s, last_message s)) us
       = map (\<lambda>kc. (fst kc, last (messages (snd kc))))
           (filter (\<lambda>kc. u \<in> set (participants (snd kc))) cs)"
    and kc: "(k, c) \<in> set cs" "u \<in> set (participants c)"
  shows "\<exists>s \<in> set us. convo_id s = k \<and> last_message s = last (messages c)"
proof -
  from kc have "(k, last (messages c))
      \<in> set (map (\<lambda>kc. (fst kc, last (messages (snd kc))))
           (filter (\<lambda>kc. u \<in> set (participants (snd kc))) cs))"
    by force
  then have "(k, last (messages c)) \<in> set (map (\<lambda>s. (convo_id s, last_message s)) us)"
    by (simp only: pairs)
  then show ?thesis by auto
qed

lemma conversation_of_summary:
  assumes pairs: "map (\<lambda>s. (convo_id s, last_message s)) us
       = map (\<lambda>kc. (fst kc, last (messages (snd kc))))
           (filter (\<lambda>kc. u \<in> set (participants (snd kc))) cs)"
    and s: "s \<in> set us"
  shows "\<exists>c. (convo_id s, c) \<in> set cs \<and> u \<in> set (participants c)
           \<and> last_message s = last (messages c)"
proof -
  from s have "(convo_id s, last_message s) \<in> set (map (\<lambda>s. (convo_id s, last_message s)) us)"
    by force
  then have "(convo_id s, last_message s)
      \<in> set (map (\<lambda>kc. (fst kc, last (messages (snd kc))))
           (filter (\<lambda>kc. u \<in> set (participants (snd kc))) cs))"
    by (simp only: pairs)
  then obtain kc where "kc \<in> set cs" "u \<in> set (participants (snd kc))"
    "convo_id s = fst kc" "last_message s = last (messages (snd kc))"
    by auto
  then show ?thesis by (intro exI [of _ "snd kc"]) simp
qed

text \<open>
  C7. The summaries that \<open>get_inbox_api\<close> returns are in descending order of their
  last message's timestamp, and a summary's last message is the last message of the
  stored conversation it stands for: of two conversations of the user, the one whose
  last message has the later timestamp stands before the other. Summaries with equal
  timestamps stand in the order in which the loop met their conversations in the
  store, so the result is a function of the store and the user alone, and the call
  does not change the store.
\<close>

theorem inbox_order:
  assumes "get_inbox_api m u = Inr ss"
  shows "sorted_wrt (\<lambda>a b. timestamp (last_message b) \<le> timestamp (last_message a)) ss
     \<and> (\<forall>i j. i < length ss \<and> j < length ss
            \<and> timestamp (last_message (ss ! i)) < timestamp (last_message (ss ! j)) \<longrightarrow> j < i)
     \<and> (\<exists>us. inbox_loop (listings (data m)) u (conversations (data m)) = Inr us
           \<and> map convo_id us
               = map fst (filter (\<lambda>kc. u \<in> set (participants (snd kc))) (conversations (data m)))
           \<and> map (\<lambda>s. (convo_id s, last_message s)) us
               = map (\<lambda>kc. (fst kc, last (messages (snd kc))))
                   (filter (\<lambda>kc. u \<in> set (participants (snd kc))) (conversations (data m)))
           \<and> (\<forall>t. filter (\<lambda>s. timestamp (last_message s) = t) ss
                  = filter (\<lambda>s. timestamp (last_message s) = t) us))
     \<and> (\<forall>s \<in> set ss. \<exists>c. (convo_id s, c) \<in> set (conversations (data m))
            \<and> u \<in> set (participants c) \<and> last_message s = last (messages c))
     \<and> (\<forall>k1 c1 k2 c2.
            (k1, c1) \<in> set (conversations (data m)) \<and> u \<in> set (participants c1)
            \<and> (k2, c2) \<in> set (conversations (data m)) \<and> u \<in> set (participants c2)
            \<and> timestamp (last (messages c1)) < timestamp (last (messages c2)) \<longrightarrow>
            (\<exists>i j. j < i \<and> i < length ss
               \<and> convo_id (ss ! j) = k2 \<and> last_message (ss ! j) = last (messages c2)
               \<and> convo_id (ss ! i) = k1 \<and> last_message (ss ! i) = last (messages c1)))"
proof -
  let ?k = "\<lambda>x. timestamp (last_message x)"
  let ?cs = "conversations (data m)"
  from assms obtain us where us: "inbox_loop (listings (data m)) u ?cs = Inr us"
    and ss: "ss = sort_reverse ?k us"
    by (auto simp: get_inbox_api_def split: sum.splits)
  have set_ss: "set ss = set us"
    unfolding ss by (rule set_sort_reverse)
  note pairs = inbox_loop_last [OF us]
  have srt: "sorted_wrt (\<lambda>a b. ?k b \<le> ?k a) ss"
    unfolding ss by (rule sort_reverse_sorted)
  have ord: "j < i" if "i < length ss" "j < length ss" "?k (ss ! i) < ?k (ss ! j)" for i j
  proof (rule ccontr)
    assume "\<not> j < i"
    with that(3) have "i < j" by (cases "i = j") auto
    with srt that(2) have "?k (ss ! j) \<le> ?k (ss ! i)"
      by (simp add: sorted_wrt_iff_nth_less)
    with that(3) show False by simp
  qed
  have stable: "filter (\<lambda>s. ?k s = t) ss = filter (\<lambda>s. ?k s = t) us" for t
    unfolding ss by (rule sort_reverse_stable)
  have third: "\<exists>us. inbox_loop (listings (data m)) u ?cs = Inr us
           \<and> map convo_id us
               = map fst (filter (\<lambda>kc. u \<in> set (participants (snd kc))) ?cs)
           \<and> map (\<lambda>s. (convo_id s, last_message s)) us
               = map (\<lambda>kc. (fst kc, last (messages (snd kc))))
                   (filter (\<lambda>kc. u \<in> set (participants (snd kc))) ?cs)
           \<and> (\<forall>t. filter (\<lambda>s. ?k s = t) ss = filter (\<lambda>s. ?k s = t) us)"
    using us inbox_loop_ids [OF us] pairs stable by (intro exI [of _ us]) simp
  have ord': "\<forall>i j. i < length ss \<and> j < length ss
            \<and> ?k (ss ! i) < ?k (ss ! j) \<longrightarrow> j < i"
    using ord by blast
  have fourth: "\<forall>s \<in> set ss. \<exists>c. (convo_id s, c) \<in> set ?cs
            \<and> u \<in> set (participants c) \<and> last_message s = last (messages c)"
    unfolding set_ss using conversation_of_summary [OF pairs] by blast
  have fifth: "\<exists>i j. j < i \<and> i < length ss
               \<and> convo_id (ss ! j) = k2 \<and> last_message (ss ! j) = last (messages c2)
               \<and> convo_id (ss ! i) = k1 \<and> last_message (ss ! i) = last (messages c1)"
    if h: "(k1, c1) \<in> set ?cs \<and> u \<in> set (participants c1)
            \<and> (k2, c2) \<in> set ?cs \<and> u \<in> set (participants c2)
            \<and> timestamp (last (messages c1)) < timestamp (last (messages c2))"
    for k1 c1 k2 c2
  proof -
    from h have kc1: "(k1, c1) \<in> set ?cs" "u \<in> set (participants c1)"
      and kc2: "(k2, c2) \<in> set ?cs" "u \<in> set (participants c2)"
      and lt: "timestamp (last (messages c1)) < timestamp (last (messages c2))"
      by simp_all
    from summary_of_conversation [OF pairs kc1] obtain s1 where
      s1: "s1 \<in> set ss" "convo_id s1 = k1" "last_message s1 = last (messages c1)"
      unfolding set_ss by blast
    from summary_of_conversation [OF pairs kc2] obtain s2 where
      s2: "s2 \<in> set ss" "convo_id s2 = k2" "last_message s2 = last (messages c2)"
      unfolding set_ss by blast
    from s1(1) obtain i where i: "i < length ss" "ss ! i = s1" by (auto simp: in_set_conv_nth)
    from s2(1) obtain j where j: "j < length ss" "ss ! j = s2" by (auto simp: in_set_conv_nth)
    have "?k (ss ! i) < ?k (ss ! j)" using lt i(2) j(2) s1(3) s2(3) by simp
    with i(1) j(1) have "j < i" by (rule ord)
    with i j s1 s2 show ?thesis by (intro exI [of _ i] exI [of _ j]) simp
  qed
  then have fifth': "\<forall>k1 c1 k2 c2.
            (k1, c1) \<in> set ?cs \<and> u \<in> set (participants c1)
            \<and> (k2, c2) \<in> set ?cs \<and> u \<in> set (participants c2)
            \<and> timestamp (last (messages c1)) < timestamp (last (messages c2)) \<longrightarrow>
            (\<exists>i j. j < i \<and> i < length ss
               \<and> convo_id (ss ! j) = k2 \<and> last_message (ss ! j) = last (messages c2)
               \<and> convo_id (ss ! i) = k1 \<and> last_message (ss ! i) = last (messages c1))"
    by (intro allI impI)
  from srt ord' third fourth fifth' show ?thesis
    by (intro conjI)
qed


theorem inbox_order_witness:
  "get_inbox_api busy2 ''alice'' = Inr busy2_inbox
     \<and> (C2, carol_convo) \<in> set (conversations (data busy2))
     \<and> ''alice'' \<in> set (participants carol_convo)
     \<and> (C1, asked_twice_convo) \<in> set (conversations (data busy2))
     \<and> ''alice'' \<in> set (participants asked_twice_convo)
     \<and> timestamp (last (messages carol_convo)) < timestamp (last (messages asked_twice_convo))
     \<and> timestamp (hd (messages asked_twice_convo)) < timestamp (hd (messages carol_convo))
     \<and> (\<exists>i j. j < i \<and> i < length busy2_inbox
           \<and> convo_id (busy2_inbox ! j) = C1
           \<and> last_message (busy2_inbox ! j) = last (messages asked_twice_convo)
           \<and> convo_id (busy2_inbox ! i) = C2
           \<and> last_message (busy2_inbox ! i) = last (messages carol_convo))
     \<and> map convo_id busy2_inbox = [C1, C2]
     \<and> map (\<lambda>s. timestamp (last_message s)) busy2_inbox = [200, 150]
     \<and> sorted_wrt (\<lambda>a b. timestamp (last_message b) \<le> timestamp (last_message a)) busy2_inbox
     \<and> get_inbox_api busy ''alice'' = Inr busy_inbox
     \<and> map convo_id busy_inbox = [C2, D1, C1]
     \<and> map (\<lambda>s. timestamp (last_message s)) busy_inbox = [300, 300, 100]
     \<and> sorted_wrt (\<lambda>a b. timestamp (last_message b) \<le> timestamp (last_message a)) busy_inbox"
proof -
  have h2: "get_inbox_api busy2 ''alice'' = Inr busy2_inbox"
    by code_simp
  have k1: "(C2, carol_convo) \<in> set (conversations (data busy2))"
    by code_simp
  have p1: "''alice'' \<in> set (participants carol_convo)"
    by code_simp
  have k2: "(C1, asked_twice_convo) \<in> set (conversations (data busy2))"
    by code_simp
  have p2: "''alice'' \<in> set (participants asked_twice_convo)"
    by code_simp
  have lt: "timestamp (last (messages carol_convo)) < timestamp (last (messages asked_twice_convo))"
    by code_simp
  have first: "timestamp (hd (messages asked_twice_convo)) < timestamp (hd (messages carol_convo))"
    by code_simp
  have hyp: "(C2, carol_convo) \<in> set (conversations (data busy2))
      \<and> ''alice'' \<in> set (participants carol_convo)
      \<and> (C1, asked_twice_convo) \<in> set (conversations (data busy2))
      \<and> ''alice'' \<in> set (participants asked_twice_convo)
      \<and> timestamp (last (messages carol_convo)) < timestamp (last (messages asked_twice_convo))"
    using k1 p1 k2 p2 lt by (intro conjI)
  note T2 = inbox_order [OF h2]
  from T2 [THEN conjunct2, THEN conjunct2, THEN conjunct2, THEN conjunct2,
      THEN spec, THEN spec, THEN spec, THEN spec, THEN mp, OF hyp]
  have pos: "\<exists>i j. j < i \<and> i < length busy2_inbox
           \<and> convo_id (busy2_inbox ! j) = C1
           \<and> last_message (busy2_inbox ! j) = last (messages asked_twice_convo)
           \<and> convo_id (busy2_inbox ! i) = C2
           \<and> last_message (busy2_inbox ! i) = last (messages carol_convo)" .
  have ids2: "map convo_id busy2_inbox = [C1, C2]"
    by code_simp
  have ts2: "map (\<lambda>s. timestamp (last_message s)) busy2_inbox = [200, 150]"
    by code_simp
  have h: "get_inbox_api busy ''alice'' = Inr busy_inbox"
    by code_simp
  have ids: "map convo_id busy_inbox = [C2, D1, C1]"
    by code_simp
  have ts: "map (\<lambda>s. timestamp (last_message s)) busy_inbox = [300, 300, 100]"
    by code_simp
  from h2 k1 p1 k2 p2 lt first pos ids2 ts2 T2 [THEN conjunct1] h ids ts
    inbox_order [OF h, THEN conjunct1]
  show ?thesis
    by (intro conjI)
qed

section \<open>The life of a read flag\<close>

lemma read_kept_refl: "read_kept c c"
  by (simp add: read_kept_def)

lemma read_kept_trans: "read_kept a b \<Longrightarrow> read_kept b c \<Longrightarrow> read_kept a c"
  unfolding read_kept_def by (metis (no_types, lifting) le_trans less_le_trans)

lemma map_entry_twice:
  "AList.map_entry k g (AList.map_entry k f xs) = AList.map_entry k (\<lambda>v. g (f v)) xs"
  by (induction xs) auto



lemma convs_create:
  "conversations (data (exec dump (CreateListing item_data own u) m)) = conversations (data m)"
  by (simp add: create_listing_api_def Let_def save_data_def)

lemma convs_send:
  "conversations (data (exec dump (SendMessage iid s cont now u) m)) = conversations (data m)
   \<or> (\<exists>k. conversations (data (exec dump (SendMessage iid s cont now u) m))
          = AList.map_entry k (\<lambda>c. c\<lparr>messages := messages c @ [new_message s cont now]\<rparr>)
              (conversations (data m)))
   \<or> (\<exists>rcp. conversations (data (exec dump (SendMessage iid s cont now u) m))
          = AList.update u (new_conversation u iid s rcp (new_message s cont now))
              (conversations (data m)))"
proof (cases "map_of (listings (data m)) iid")
  case None
  then show ?thesis by (simp add: send_message_api_def)
next
  case (Some item)
  show ?thesis
  proof (cases "s = owner item")
    case True
    with Some show ?thesis by (simp add: send_message_api_def)
  next
    case False
    show ?thesis
    proof (cases "id_truthy (find_convo (conversations (data m)) iid s (owner item))")
      case True
      with Some False have "conversations (data (exec dump (SendMessage iid s cont now u) m))
          = AList.map_entry (the (find_convo (conversations (data m)) iid s (owner item)))
              (\<lambda>c. c\<lparr>messages := messages c @ [new_message s cont now]\<rparr>) (conversations (data m))"
        by (simp add: send_message_api_def Let_def save_data_def)
      then show ?thesis by (intro disjI2 disjI1 exI)
    next
      case F: False
      with Some False have "conversations (data (exec dump (SendMessage iid s cont now u) m))
          = AList.update u (new_conversation u iid s (owner item) (new_message s cont now))
              (conversations (data m))"
        by (simp add: send_message_api_def Let_def save_data_def)
      then show ?thesis by (intro disjI2 exI)
    qed
  qed
qed

lemma convs_get:
  "conversations (data (exec dump (GetConversation cid usr) m)) = conversations (data m)
   \<or> (\<exists>c info. map_of (conversations (data m)) cid = Some c \<and> usr \<in> set (participants c)
        \<and> info \<noteq> None
        \<and> conversations (data (exec dump (GetConversation cid usr) m))
          = AList.map_entry cid
              (\<lambda>c. c\<lparr>messages := mark_read usr (messages c), item_info := info\<rparr>)
              (conversations (data m)))"
proof (cases "map_of (conversations (data m)) cid")
  case None
  then show ?thesis by (simp add: get_conversation_api_def)
next
  case (Some c)
  show ?thesis
  proof (cases "usr \<in> set (participants c)")
    case False
    with Some show ?thesis by (simp add: get_conversation_api_def)
  next
    case True
    with Some have "conversations (data (exec dump (GetConversation cid usr) m))
        = AList.map_entry cid
            (\<lambda>c'. c'\<lparr>messages := mark_read usr (messages c'),
                     item_info := Some (map_of (listings (data m)) (item_id c))\<rparr>)
            (conversations (data m))"
      by (simp add: get_conversation_api_def Let_def save_data_def map_entry_twice)
    moreover have "Some (map_of (listings (data m)) (item_id c)) \<noteq> None" by simp
    ultimately show ?thesis using Some True by (intro disjI2 exI conjI)
  qed
qed


lemma read_kept_append: "read_kept c (c\<lparr>messages := messages c @ [msg]\<rparr>)"
  by (simp add: read_kept_def nth_append)

lemma read_kept_mark:
  "read_kept c (c\<lparr>messages := mark_read u (messages c), item_info := info\<rparr>)"
  by (simp add: read_kept_def mark_read_length mark_read_nth)

lemma kept_map_entry:
  assumes "\<And>c. read_kept c (f c)" "map_of cs k = Some c"
  shows "\<exists>c'. map_of (AList.map_entry k' f cs) k = Some c' \<and> read_kept c c'"
  using assms by (cases "k = k'") (simp_all add: AList.map_of_map_entry read_kept_refl)

lemma kept_update:
  assumes "k' \<notin> set (map fst cs)" "map_of cs k = Some c"
  shows "map_of (AList.update k' v cs) k = Some c"
proof -
  from assms(2) have "k \<in> set (map fst cs)"
    by (metis map_of_eq_None_iff option.distinct(1) set_map)
  with assms(1) have "k \<noteq> k'" by blast
  with assms(2) show ?thesis by (simp add: AList.update_conv')
qed

lemma step_kept:
  assumes ok: "op_ok m x" and c: "map_of (conversations (data m)) k = Some c"
  shows "\<exists>c'. map_of (conversations (data (exec dump x m))) k = Some c' \<and> read_kept c c'"
proof (cases x)
  case (CreateListing item_data own u)
  have "conversations (data (exec dump x m)) = conversations (data m)"
    unfolding CreateListing by (rule convs_create)
  with c show ?thesis by (simp add: read_kept_refl)
next
  case (SendMessage iid s cont now u)
  from convs_send [of dump iid s cont now u m] show ?thesis
  proof (elim disjE exE)
    assume "conversations (data (exec dump (SendMessage iid s cont now u) m)) = conversations (data m)"
    with c SendMessage show ?thesis by (simp add: read_kept_refl)
  next
    fix k' assume e: "conversations (data (exec dump (SendMessage iid s cont now u) m))
          = AList.map_entry k' (\<lambda>c. c\<lparr>messages := messages c @ [new_message s cont now]\<rparr>)
              (conversations (data m))"
    show ?thesis unfolding SendMessage e
      using c by (intro kept_map_entry read_kept_append)
  next
    fix rcp assume e: "conversations (data (exec dump (SendMessage iid s cont now u) m))
          = AList.update u (new_conversation u iid s rcp (new_message s cont now))
              (conversations (data m))"
    have "u \<notin> set (map fst (conversations (data m)))" using ok SendMessage by simp
    from kept_update [OF this c] show ?thesis unfolding SendMessage e
      by (simp add: read_kept_refl)
  qed
next
  case (GetInbox u)
  with c show ?thesis by (simp add: read_kept_refl)
next
  case (GetConversation cid usr)
  from convs_get [of dump cid usr m] show ?thesis
  proof (elim disjE exE conjE)
    assume "conversations (data (exec dump (GetConversation cid usr) m)) = conversations (data m)"
    with c GetConversation show ?thesis by (simp add: read_kept_refl)
  next
    fix c0 info assume e: "conversations (data (exec dump (GetConversation cid usr) m))
          = AList.map_entry cid
              (\<lambda>c. c\<lparr>messages := mark_read usr (messages c), item_info := info\<rparr>)
              (conversations (data m))"
    show ?thesis unfolding GetConversation e
      using c by (intro kept_map_entry read_kept_mark)
  qed
qed

lemma run_kept:
  "trace_ok dump m xs \<Longrightarrow> map_of (conversations (data m)) k = Some c \<Longrightarrow>
     \<exists>c'. map_of (conversations (data (run dump m xs))) k = Some c' \<and> read_kept c c'"
proof (induction xs arbitrary: m c)
  case Nil
  then show ?case by (simp add: read_kept_refl)
next
  case (Cons x xs)
  from Cons.prems have ok: "op_ok m x" and rest: "trace_ok dump (exec dump x m) xs" by simp_all
  from step_kept [OF ok Cons.prems(2), of dump] obtain c1 where
    c1: "map_of (conversations (data (exec dump x m))) k = Some c1" "read_kept c c1" by blast
  from Cons.IH [OF rest c1(1)] obtain c' where
    "map_of (conversations (data (run dump (exec dump x m) xs))) k = Some c'" "read_kept c1 c'"
    by blast
  with c1(2) show ?case by (auto intro: read_kept_trans)
qed


lemma marked_by_reader:
  assumes ok: "op_ok m x" and c: "map_of (conversations (data m)) k = Some c"
    and c': "map_of (conversations (data (exec dump x m))) k = Some c'"
    and i: "i < length (messages c)" "\<not> read (messages c ! i)" "read (messages c' ! i)"
  shows "\<exists>usr. x = GetConversation k usr \<and> usr \<in> set (participants c)
           \<and> usr \<noteq> sender (messages c ! i)"
proof (cases x)
  case (CreateListing item_data own u)
  have "conversations (data (exec dump x m)) = conversations (data m)"
    unfolding CreateListing by (rule convs_create)
  with c c' i show ?thesis by simp
next
  case (SendMessage iid s cont now u)
  from convs_send [of dump iid s cont now u m] have False
  proof (elim disjE exE)
    assume "conversations (data (exec dump (SendMessage iid s cont now u) m)) = conversations (data m)"
    with c c' i SendMessage show False by simp
  next
    fix k' assume e: "conversations (data (exec dump (SendMessage iid s cont now u) m))
          = AList.map_entry k' (\<lambda>c. c\<lparr>messages := messages c @ [new_message s cont now]\<rparr>)
              (conversations (data m))"
    from c' c i show False unfolding SendMessage e
      by (cases "k = k'") (auto simp: AList.map_of_map_entry nth_append)
  next
    fix rcp assume e: "conversations (data (exec dump (SendMessage iid s cont now u) m))
          = AList.update u (new_conversation u iid s rcp (new_message s cont now))
              (conversations (data m))"
    have "u \<notin> set (map fst (conversations (data m)))" using ok SendMessage by simp
    from kept_update [OF this c] c' i show False unfolding SendMessage e by simp
  qed
  then show ?thesis ..
next
  case (GetInbox u)
  with c c' i show ?thesis by simp
next
  case (GetConversation cid usr)
  from convs_get [of dump cid usr m] show ?thesis
  proof (elim disjE exE conjE)
    assume "conversations (data (exec dump (GetConversation cid usr) m)) = conversations (data m)"
    with c c' i GetConversation show ?thesis by simp
  next
    fix c0 info assume c0: "map_of (conversations (data m)) cid = Some c0"
      and usr: "usr \<in> set (participants c0)"
      and e: "conversations (data (exec dump (GetConversation cid usr) m))
          = AList.map_entry cid
              (\<lambda>c. c\<lparr>messages := mark_read usr (messages c), item_info := info\<rparr>)
              (conversations (data m))"
    show ?thesis
    proof (cases "k = cid")
      case False
      with c c' i show ?thesis unfolding GetConversation e
        by (simp add: AList.map_of_map_entry)
    next
      case True
      with c c0 have eq: "c0 = c" by simp
      from c' c True have "c' = c\<lparr>messages := mark_read usr (messages c), item_info := info\<rparr>"
        unfolding GetConversation e by (simp add: AList.map_of_map_entry)
      with i mark_read_nth [OF i(1), of usr] have "sender (messages c ! i) \<noteq> usr" by simp
      with usr eq True GetConversation show ?thesis by auto
    qed
  qed
qed

lemma new_messages_unread:
  assumes ok: "op_ok m x"
    and c': "map_of (conversations (data (exec dump x m))) k = Some c'"
    and i: "i < length (messages c')"
    and new: "case map_of (conversations (data m)) k of None \<Rightarrow> True
              | Some c \<Rightarrow> length (messages c) \<le> i"
  shows "\<not> read (messages c' ! i)"
proof -
  have same: False if "conversations (data (exec dump x m)) = conversations (data m)"
    using that c' i new by simp
  show ?thesis
  proof (cases x)
    case (CreateListing item_data own u)
    have "conversations (data (exec dump x m)) = conversations (data m)"
      unfolding CreateListing by (rule convs_create)
    with same show ?thesis by simp
  next
    case (SendMessage iid s cont now u)
    from convs_send [of dump iid s cont now u m] show ?thesis
    proof (elim disjE exE)
      assume "conversations (data (exec dump (SendMessage iid s cont now u) m)) = conversations (data m)"
      with same SendMessage show ?thesis by simp
    next
      fix k' assume e: "conversations (data (exec dump (SendMessage iid s cont now u) m))
          = AList.map_entry k' (\<lambda>c. c\<lparr>messages := messages c @ [new_message s cont now]\<rparr>)
              (conversations (data m))"
      from c' i new show ?thesis unfolding SendMessage e
        by (cases "k = k'")
          (auto simp: AList.map_of_map_entry nth_append new_message_def split: option.splits)
    next
      fix rcp assume e: "conversations (data (exec dump (SendMessage iid s cont now u) m))
          = AList.update u (new_conversation u iid s rcp (new_message s cont now))
              (conversations (data m))"
      from c' i new show ?thesis unfolding SendMessage e
        by (cases "k = u")
          (auto simp: AList.update_conv' new_conversation_def new_message_def split: option.splits)
    qed
  next
    case (GetInbox u)
    with same show ?thesis by simp
  next
    case (GetConversation cid usr)
    from convs_get [of dump cid usr m] show ?thesis
    proof (elim disjE exE conjE)
      assume "conversations (data (exec dump (GetConversation cid usr) m)) = conversations (data m)"
      with same GetConversation show ?thesis by simp
    next
      fix c0 info assume e: "conversations (data (exec dump (GetConversation cid usr) m))
          = AList.map_entry cid
              (\<lambda>c. c\<lparr>messages := mark_read usr (messages c), item_info := info\<rparr>)
              (conversations (data m))"
      from c' i new show ?thesis unfolding GetConversation e
        by (cases "k = cid")
          (auto simp: AList.map_of_map_entry mark_read_length split: option.splits)
    qed
  qed
qed

text \<open>
  C6. Along every run from any state, with fresh identifiers, a stored conversation stays
  stored with its messages in place, and a message that is read stays read. In one
  step, a message goes from unread to read only when the step is
  \<open>get_conversation_api\<close> on its conversation by a participant who is not its sender.
  A message that a step adds (to a conversation or with a new conversation) is unread.
\<close>

theorem read_flag_life:
  assumes "trace_ok dump m xs"
  shows "(\<forall>k c. map_of (conversations (data m)) k = Some c \<longrightarrow>
            (\<exists>c'. map_of (conversations (data (run dump m xs))) k = Some c' \<and> read_kept c c'))
     \<and> (\<forall>x k c c' i. op_ok m x \<and> map_of (conversations (data m)) k = Some c
            \<and> map_of (conversations (data (exec dump x m))) k = Some c'
            \<and> i < length (messages c) \<and> \<not> read (messages c ! i) \<and> read (messages c' ! i) \<longrightarrow>
            (\<exists>usr. x = GetConversation k usr \<and> usr \<in> set (participants c)
               \<and> usr \<noteq> sender (messages c ! i)))
     \<and> (\<forall>x k c' i. op_ok m x
            \<and> map_of (conversations (data (exec dump x m))) k = Some c'
            \<and> i < length (messages c')
            \<and> (case map_of (conversations (data m)) k of None \<Rightarrow> True
                | Some c \<Rightarrow> length (messages c) \<le> i) \<longrightarrow>
            \<not> read (messages c' ! i))"
proof (intro conjI allI impI)
  fix k c assume "map_of (conversations (data m)) k = Some c"
  with assms show "\<exists>c'. map_of (conversations (data (run dump m xs))) k = Some c' \<and> read_kept c c'"
    by (rule run_kept)
next
  fix x k c c' i
  assume "op_ok m x \<and> map_of (conversations (data m)) k = Some c
            \<and> map_of (conversations (data (exec dump x m))) k = Some c'
            \<and> i < length (messages c) \<and> \<not> read (messages c ! i) \<and> read (messages c' ! i)"
  then show "\<exists>usr. x = GetConversation k usr \<and> usr \<in> set (participants c)
               \<and> usr \<noteq> sender (messages c ! i)"
    using marked_by_reader [of m x k c dump c' i] by simp
next
  fix x k c' i
  assume "op_ok m x
            \<and> map_of (conversations (data (exec dump x m))) k = Some c'
            \<and> i < length (messages c')
            \<and> (case map_of (conversations (data m)) k of None \<Rightarrow> True
                | Some c \<Rightarrow> length (messages c) \<le> i)"
  then show "\<not> read (messages c' ! i)"
    using new_messages_unread [of m x dump k c' i] by simp
qed

theorem read_flag_life_witness:
  "trace_ok (\<lambda>d. d) asked later
     \<and> map_of (conversations (data asked)) C1 = Some asked_convo
     \<and> (\<exists>c'. map_of (conversations (data (run (\<lambda>d. d) asked later))) C1 = Some c'
           \<and> read_kept asked_convo c')
     \<and> op_ok asked (GetConversation C1 ''alice'')
     \<and> map_of (conversations (data (exec (\<lambda>d. d) (GetConversation C1 ''alice'') asked))) C1
           = Some opened_convo
     \<and> \<not> read (messages asked_convo ! 0) \<and> read (messages opened_convo ! 0)
     \<and> (\<exists>usr. GetConversation C1 ''alice'' = GetConversation C1 usr
           \<and> usr \<in> set (participants asked_convo) \<and> usr \<noteq> sender (messages asked_convo ! 0))
     \<and> op_ok asked (SendMessage L1 ''bob'' ''still there?'' 200 C2)
     \<and> map_of (conversations (data (exec (\<lambda>d. d)
             (SendMessage L1 ''bob'' ''still there?'' 200 C2) asked))) C1 = Some asked_twice_convo
     \<and> \<not> read (messages asked_twice_convo ! 1)"
proof -
  have t: "trace_ok (\<lambda>d. d) asked later"
    by code_simp
  have c: "map_of (conversations (data asked)) C1 = Some asked_convo"
    by code_simp
  note T = read_flag_life [OF t]
  from T [THEN conjunct1, THEN spec, THEN spec, THEN mp, OF c]
  have kept: "\<exists>c'. map_of (conversations (data (run (\<lambda>d. d) asked later))) C1 = Some c'
           \<and> read_kept asked_convo c'" .
  have o1: "op_ok asked (GetConversation C1 ''alice'')"
    by simp
  have c1: "map_of (conversations (data (exec (\<lambda>d. d) (GetConversation C1 ''alice'') asked))) C1
           = Some opened_convo"
    by code_simp
  have l: "0 < length (messages asked_convo)"
    by code_simp
  have r0: "\<not> read (messages asked_convo ! 0)"
    by code_simp
  have r1: "read (messages opened_convo ! 0)"
    by code_simp
  have h2: "op_ok asked (GetConversation C1 ''alice'')
      \<and> map_of (conversations (data asked)) C1 = Some asked_convo
      \<and> map_of (conversations (data (exec (\<lambda>d. d) (GetConversation C1 ''alice'') asked))) C1
           = Some opened_convo
      \<and> 0 < length (messages asked_convo) \<and> \<not> read (messages asked_convo ! 0)
      \<and> read (messages opened_convo ! 0)"
    using o1 c c1 l r0 r1 by (intro conjI)
  from T [THEN conjunct2, THEN conjunct1, THEN spec, THEN spec, THEN spec, THEN spec, THEN spec,
      THEN mp, OF h2]
  have by_reader: "\<exists>usr. GetConversation C1 ''alice'' = GetConversation C1 usr
           \<and> usr \<in> set (participants asked_convo) \<and> usr \<noteq> sender (messages asked_convo ! 0)" .
  have o2: "op_ok asked (SendMessage L1 ''bob'' ''still there?'' 200 C2)"
    by code_simp
  have c2: "map_of (conversations (data (exec (\<lambda>d. d)
             (SendMessage L1 ''bob'' ''still there?'' 200 C2) asked))) C1 = Some asked_twice_convo"
    by code_simp
  have l2: "1 < length (messages asked_twice_convo)"
    by code_simp
  have n2: "case map_of (conversations (data asked)) C1 of None \<Rightarrow> True
            | Some c \<Rightarrow> length (messages c) \<le> 1"
    by code_simp
  have h3: "op_ok asked (SendMessage L1 ''bob'' ''still there?'' 200 C2)
      \<and> map_of (conversations (data (exec (\<lambda>d. d)
             (SendMessage L1 ''bob'' ''still there?'' 200 C2) asked))) C1 = Some asked_twice_convo
      \<and> 1 < length (messages asked_twice_convo)
      \<and> (case map_of (conversations (data asked)) C1 of None \<Rightarrow> True
          | Some c \<Rightarrow> length (messages c) \<le> 1)"
    using o2 c2 l2 n2 by (intro conjI)
  from T [THEN conjunct2, THEN conjunct2, THEN spec, THEN spec, THEN spec, THEN spec,
      THEN mp, OF h3]
  have unread: "\<not> read (messages asked_twice_convo ! 1)" .
  from t c kept o1 c1 r0 r1 by_reader o2 c2 unread show ?thesis
    by (intro conjI)
qed

section \<open>Listing validation\<close>

text \<open>
  C8. The code at an input where the claim and the code part: the request body
  \<open>free_chair\<close> has all four fields, none of them null or empty, and its price is the
  number 0. \<open>create_listing_api\<close> answers with the validation error and stores
  nothing, because \<open>all([...])\<close> takes the number 0 for false.
\<close>

theorem free_listing_rejected:
  "list_all (\<lambda>k. map_of free_chair k \<noteq> None \<and> map_of free_chair k \<noteq> Some JNull
       \<and> map_of free_chair k \<noteq> Some (JStr []) \<and> map_of free_chair k \<noteq> Some (JArr [])
       \<and> map_of free_chair k \<noteq> Some (JObj []))
     [''name'', ''description'', ''price'', ''category'']
   \<and> create_listing_api (\<lambda>d. d) (empty_manager :: store manager) free_chair ''alice'' L1
       = (Inl ValidationFailed, empty_manager)"
  by code_simp

section \<open>Saving and loading\<close>

lemma in_sync_refl: "in_sync d d"
  by (simp add: in_sync_def)

lemma erase_map_entry_info:
  "map erase_info (AList.map_entry k (\<lambda>c. c\<lparr>item_info := x\<rparr>) cs) = map erase_info cs"
  by (induction cs) (auto simp: erase_info_def)

lemma load_dump: "load (dump d) = Some d \<Longrightarrow> load_data load (Some (dump d)) = d"
  by (simp add: load_data_def)

lemma synced_saved:
  "load (dump (data m)) = Some (data m) \<Longrightarrow> synced load (save_data dump m)"
  by (simp add: synced_def save_data_def load_data_def in_sync_refl)

lemma synced_create:
  assumes "\<forall>d. load (dump d) = Some d" "synced load m"
  shows "synced load (snd (create_listing_api dump m item_data own u))"
  using assms
  by (simp add: create_listing_api_def Let_def save_data_def synced_def load_data_def in_sync_refl)

lemma synced_send:
  assumes ld: "\<forall>d. load (dump d) = Some d" and sy: "synced load m"
  shows "synced load (snd (send_message_api dump m iid s x t u))"
proof (cases "fst (send_message_api dump m iid s x t u)")
  case (Inl e)
  then have "send_message_api dump m iid s x t u = (Inl e, m)"
    by (auto simp: send_message_api_def Let_def split: option.splits if_splits)
  with sy show ?thesis by simp
next
  case (Inr a)
  then obtain d where "snd (send_message_api dump m iid s x t u) = save_data dump (m\<lparr>data := d\<rparr>)"
    by (auto simp: send_message_api_def Let_def split: option.splits if_splits)
  with ld synced_saved [of load dump "m\<lparr>data := d\<rparr>"] show ?thesis by simp
qed

lemma synced_get_conversation:
  assumes ld: "\<forall>d. load (dump d) = Some d" and sy: "synced load m"
  shows "synced load (snd (get_conversation_api dump m cid u))"
proof (cases "fst (get_conversation_api dump m cid u)")
  case (Inl e)
  then have "get_conversation_api dump m cid u = (Inl e, m)"
    by (auto simp: get_conversation_api_def Let_def split: option.splits if_splits)
  with sy show ?thesis by simp
next
  case (Inr c1)
  then obtain c where c: "map_of (conversations (data m)) cid = Some c" "u \<in> set (participants c)"
    by (auto simp: get_conversation_api_def Let_def split: option.splits if_splits)
  then show ?thesis
    using ld
    by (simp add: get_conversation_api_def Let_def save_data_def synced_def load_data_def
        in_sync_def erase_map_entry_info)
qed

lemma synced_exec:
  "\<forall>d. load (dump d) = Some d \<Longrightarrow> synced load m \<Longrightarrow> synced load (exec dump x m)"
  by (cases x) (simp_all add: synced_create synced_send synced_get_conversation)

lemma synced_run:
  "\<forall>d. load (dump d) = Some d \<Longrightarrow> synced load m \<Longrightarrow> synced load (run dump m xs)"
  by (induction xs arbitrary: m) (simp_all add: synced_exec)

lemma synced_empty: "synced load empty_manager"
  by (simp add: synced_def empty_manager_def load_data_def in_sync_refl)

text \<open>
  C9. When \<open>json.load\<close> gives back what \<open>json.dump\<close> was given, saving a manager and
  loading the file (as a restart does) gives the dictionary that was in memory. Moreover,
  after every run from the empty store, what a restart would load from the file as the
  run left it has the same listings and the same conversations, ids, message order and
  read flags, as the dictionary in memory; only \<open>item_info\<close> can differ.
\<close>

theorem save_load_round_trip:
  assumes "\<forall>d. load (dump d) = Some d"
  shows "load_data load (disk (save_data dump m)) = data m
     \<and> data (init_manager load (disk (save_data dump m))) = data m
     \<and> in_sync (data (init_manager load (disk (run dump empty_manager xs))))
          (data (run dump empty_manager xs))"
proof -
  have 1: "load_data load (disk (save_data dump m)) = data m"
    using assms by (simp add: save_data_def load_data_def)
  have "synced load (run dump empty_manager xs)"
    using assms synced_empty by (rule synced_run)
  then have 2: "in_sync (data (init_manager load (disk (run dump empty_manager xs))))
          (data (run dump empty_manager xs))"
    by (simp add: synced_def init_manager_def)
  from 1 2 show ?thesis by (simp add: init_manager_def)
qed

theorem save_load_round_trip_witness:
  "(\<forall>d :: store. Some d = Some d)
     \<and> load_data Some (disk (save_data (\<lambda>d. d) opened)) = data opened
     \<and> in_sync (data (init_manager Some (disk (run (\<lambda>d. d) empty_manager demo))))
          (data (run (\<lambda>d. d) empty_manager demo))"
proof -
  have h: "\<forall>d :: store. Some d = Some d"
    by simp
  note R = save_load_round_trip [where load = Some and dump = "\<lambda>d. d" and m = opened
      and xs = demo]
  from h R show ?thesis
    by simp
qed

section \<open>The item information written into a stored conversation\<close>

lemma has_info_map_entry:
  assumes "has_info d cid" "\<And>c. item_info c \<noteq> None \<Longrightarrow> item_info (f c) \<noteq> None"
  shows "has_info (d\<lparr>conversations := AList.map_entry k f (conversations d)\<rparr>) cid"
  using assms
  by (cases "cid = k") (auto simp: has_info_def AList.map_of_map_entry split: option.splits)

lemma has_info_marked: "has_info d cid \<Longrightarrow> has_info (marked_store d k u) cid"
  unfolding marked_store_def by (rule has_info_map_entry) simp_all

lemma has_info_convs:
  "conversations d' = conversations d \<Longrightarrow> has_info d cid \<Longrightarrow> has_info d' cid"
  by (simp add: has_info_def)

lemma has_info_exec:
  assumes ok: "op_ok m x" and h: "has_info (data m) cid"
  shows "has_info (data (exec dump x m)) cid"
proof -
  from h obtain c where c: "map_of (conversations (data m)) cid = Some c" "item_info c \<noteq> None"
    by (auto simp: has_info_def split: option.splits)
  have entry: "has_info (data (exec dump x m)) cid"
    if "conversations (data (exec dump x m)) = AList.map_entry k f (conversations (data m))"
      "\<And>c. item_info c \<noteq> None \<Longrightarrow> item_info (f c) \<noteq> None" for k f
  proof -
    have "has_info ((data m)\<lparr>conversations := AList.map_entry k f (conversations (data m))\<rparr>) cid"
      using h that(2) by (rule has_info_map_entry)
    then show ?thesis by (simp add: has_info_def that(1))
  qed
  show ?thesis
  proof (cases x)
    case (CreateListing item_data own u)
    have "conversations (data (exec dump x m)) = conversations (data m)"
      unfolding CreateListing by (rule convs_create)
    then show ?thesis using h by (rule has_info_convs)
  next
    case (SendMessage iid s cont now u)
    from convs_send [of dump iid s cont now u m] show ?thesis
    proof (elim disjE exE)
      assume "conversations (data (exec dump (SendMessage iid s cont now u) m)) = conversations (data m)"
      then show ?thesis unfolding SendMessage using h by (rule has_info_convs)
    next
      fix k' assume e: "conversations (data (exec dump (SendMessage iid s cont now u) m))
          = AList.map_entry k' (\<lambda>c. c\<lparr>messages := messages c @ [new_message s cont now]\<rparr>)
              (conversations (data m))"
      show ?thesis unfolding SendMessage
        by (rule entry [unfolded SendMessage, OF e]) simp
    next
      fix rcp assume e: "conversations (data (exec dump (SendMessage iid s cont now u) m))
          = AList.update u (new_conversation u iid s rcp (new_message s cont now))
              (conversations (data m))"
      have "u \<notin> set (map fst (conversations (data m)))" using ok SendMessage by simp
      from kept_update [OF this c(1)]
      have "map_of (conversations (data (exec dump (SendMessage iid s cont now u) m))) cid = Some c"
        by (simp only: e)
      with c(2) show ?thesis unfolding SendMessage
        by (simp add: has_info_def del: exec.simps)
    qed
  next
    case (GetInbox u)
    with h show ?thesis by simp
  next
    case (GetConversation k usr)
    from convs_get [of dump k usr m] show ?thesis
    proof (elim disjE exE conjE)
      assume "conversations (data (exec dump (GetConversation k usr) m)) = conversations (data m)"
      then show ?thesis unfolding GetConversation using h by (rule has_info_convs)
    next
      fix c0 info assume i: "info \<noteq> None"
        and e: "conversations (data (exec dump (GetConversation k usr) m))
          = AList.map_entry k
              (\<lambda>c. c\<lparr>messages := mark_read usr (messages c), item_info := info\<rparr>)
              (conversations (data m))"
      show ?thesis unfolding GetConversation
        by (rule entry [unfolded GetConversation, OF e]) (simp add: i)
    qed
  qed
qed

lemma disk_exec:
  "disk (exec dump x m) = disk m
   \<or> disk (exec dump x m) = Some (dump (data (exec dump x m)))
   \<or> (\<exists>k usr. disk (exec dump x m) = Some (dump (marked_store (data m) k usr)))"
proof (cases x)
  case (CreateListing item_data own u)
  then show ?thesis
    by (simp add: create_listing_api_def Let_def save_data_def)
next
  case (SendMessage iid s cont now u)
  show ?thesis
  proof (cases "fst (send_message_api dump m iid s cont now u)")
    case (Inl e)
    then have "send_message_api dump m iid s cont now u = (Inl e, m)"
      by (auto simp: send_message_api_def Let_def split: option.splits if_splits)
    with SendMessage show ?thesis by simp
  next
    case (Inr a)
    then obtain d where "snd (send_message_api dump m iid s cont now u) = save_data dump (m\<lparr>data := d\<rparr>)"
      by (auto simp: send_message_api_def Let_def split: option.splits if_splits)
    with SendMessage show ?thesis by (simp add: save_data_def)
  qed
next
  case (GetInbox u)
  then show ?thesis by simp
next
  case (GetConversation k usr)
  show ?thesis
  proof (cases "fst (get_conversation_api dump m k usr)")
    case (Inl e)
    then have "get_conversation_api dump m k usr = (Inl e, m)"
      by (auto simp: get_conversation_api_def Let_def split: option.splits if_splits)
    with GetConversation show ?thesis by simp
  next
    case (Inr c1)
    then obtain c where "map_of (conversations (data m)) k = Some c" "usr \<in> set (participants c)"
      by (auto simp: get_conversation_api_def Let_def split: option.splits if_splits)
    then have "disk (exec dump x m) = Some (dump (marked_store (data m) k usr))"
      using GetConversation
      by (simp add: get_conversation_api_def Let_def save_data_def marked_store_def)
    then show ?thesis by (intro disjI2 exI)
  qed
qed

lemma info_run:
  assumes "trace_ok dump m xs" "has_info (data m) cid"
    "disk m = D \<or> (\<exists>d. disk m = Some (dump d) \<and> has_info d cid)"
  shows "has_info (data (run dump m xs)) cid
     \<and> (disk (run dump m xs) = D \<or> (\<exists>d. disk (run dump m xs) = Some (dump d) \<and> has_info d cid))"
  using assms
proof (induction xs arbitrary: m)
  case Nil
  then show ?case by simp
next
  case (Cons x xs)
  from Cons.prems(1) have ok: "op_ok m x" and rest: "trace_ok dump (exec dump x m) xs" by simp_all
  have h: "has_info (data (exec dump x m)) cid"
    using ok Cons.prems(2) by (rule has_info_exec)
  have d: "disk (exec dump x m) = D \<or> (\<exists>d. disk (exec dump x m) = Some (dump d) \<and> has_info d cid)"
    using disk_exec [of dump x m]
  proof (elim disjE exE)
    assume "disk (exec dump x m) = disk m"
    with Cons.prems(3) show ?thesis by simp
  next
    assume "disk (exec dump x m) = Some (dump (data (exec dump x m)))"
    with h show ?thesis by blast
  next
    fix k usr assume "disk (exec dump x m) = Some (dump (marked_store (data m) k usr))"
    moreover have "has_info (marked_store (data m) k usr) cid"
      using Cons.prems(2) by (rule has_info_marked)
    ultimately show ?thesis by blast
  qed
  from Cons.IH [OF rest h d] show ?case by simp
qed


lemma get_conversation_frame:
  assumes c: "map_of (conversations (data m)) cid = Some c" and u: "u \<in> set (participants c)"
  shows "disk (snd (get_conversation_api dump m cid u)) = Some (dump (marked_store (data m) cid u))"
    and "map fst (conversations (data (snd (get_conversation_api dump m cid u))))
           = map fst (conversations (data m))"
    and "k \<noteq> cid \<Longrightarrow> map_of (conversations (data (snd (get_conversation_api dump m cid u)))) k
           = map_of (conversations (data m)) k"
  using c u
  by (simp_all add: get_conversation_api_def Let_def save_data_def marked_store_def
      map_fst_map_entry AList.map_of_map_entry)

lemma mark_read_fields:
  "map sender (mark_read u msgs) = map sender msgs"
  "map content (mark_read u msgs) = map content msgs"
  "map timestamp (mark_read u msgs) = map timestamp msgs"
  by (induction msgs) (simp_all add: mark_read_def)

text \<open>
  C10. A successful \<open>get_conversation_api\<close> leaves the returned conversation stored
  under its id, with \<open>item_info\<close> set to the listing found for its item (or to null).
  The file it wrote holds the dictionary with the messages marked and without this
  write. On every later run (with fresh identifiers) the stored conversation keeps the
  key, and the file is either still the one this call wrote or an encoding of a
  dictionary in which the conversation has the key. The listings, the ids and order of
  the conversations, every other conversation, and this conversation's id, item,
  participants and its messages' senders, contents and timestamps are unchanged.
\<close>

theorem get_conversation_writes_item_info:
  assumes "get_conversation_api dump m cid u = (Inr c1, m1)"
  shows "\<exists>c. map_of (conversations (data m)) cid = Some c
     \<and> map_of (conversations (data m1)) cid = Some c1
     \<and> item_info c1 = Some (map_of (listings (data m)) (item_id c))
     \<and> disk m1 = Some (dump (marked_store (data m) cid u))
     \<and> map_of (conversations (marked_store (data m) cid u)) cid
          = Some (c\<lparr>messages := mark_read u (messages c)\<rparr>)
     \<and> (\<forall>xs. trace_ok dump m1 xs \<longrightarrow>
            has_info (data (run dump m1 xs)) cid
            \<and> (disk (run dump m1 xs) = disk m1
                \<or> (\<exists>d. disk (run dump m1 xs) = Some (dump d) \<and> has_info d cid)))
     \<and> listings (data m1) = listings (data m)
     \<and> map fst (conversations (data m1)) = map fst (conversations (data m))
     \<and> (\<forall>k. k \<noteq> cid \<longrightarrow>
            map_of (conversations (data m1)) k = map_of (conversations (data m)) k)
     \<and> id_c c1 = id_c c \<and> item_id c1 = item_id c \<and> participants c1 = participants c
     \<and> map sender (messages c1) = map sender (messages c)
     \<and> map content (messages c1) = map content (messages c)
     \<and> map timestamp (messages c1) = map timestamp (messages c)"
proof -
  from get_conversation_success [OF assms] obtain c where
    c: "map_of (conversations (data m)) cid = Some c" and u: "u \<in> set (participants c)"
    by blast
  from get_conversation_result [OF c u, of dump] assms
  have c1: "c1 = c\<lparr>messages := mark_read u (messages c),
                     item_info := Some (map_of (listings (data m)) (item_id c))\<rparr>"
    and ls: "listings (data m1) = listings (data m)"
    and st: "map_of (conversations (data m1)) cid = Some c1"
    by auto
  have m1: "m1 = snd (get_conversation_api dump m cid u)" using assms by simp
  note fr = get_conversation_frame [OF c u, where dump = dump, folded m1]
  have info: "item_info c1 = Some (map_of (listings (data m)) (item_id c))"
    by (simp add: c1)
  have written: "map_of (conversations (marked_store (data m) cid u)) cid
          = Some (c\<lparr>messages := mark_read u (messages c)\<rparr>)"
    using c by (simp add: marked_store_def AList.map_of_map_entry)
  have h1: "has_info (data m1) cid"
    using st info by (simp add: has_info_def)
  have later: "\<forall>xs. trace_ok dump m1 xs \<longrightarrow>
            has_info (data (run dump m1 xs)) cid
            \<and> (disk (run dump m1 xs) = disk m1
                \<or> (\<exists>d. disk (run dump m1 xs) = Some (dump d) \<and> has_info d cid))"
  proof (intro allI impI)
    fix xs assume t: "trace_ok dump m1 xs"
    have "disk m1 = disk m1 \<or> (\<exists>d. disk m1 = Some (dump d) \<and> has_info d cid)" by simp
    with t h1 show "has_info (data (run dump m1 xs)) cid
            \<and> (disk (run dump m1 xs) = disk m1
                \<or> (\<exists>d. disk (run dump m1 xs) = Some (dump d) \<and> has_info d cid))"
      by (rule info_run)
  qed
  have others: "\<forall>k. k \<noteq> cid \<longrightarrow>
            map_of (conversations (data m1)) k = map_of (conversations (data m)) k"
    using fr(3) by blast
  have fields: "id_c c1 = id_c c \<and> item_id c1 = item_id c \<and> participants c1 = participants c
     \<and> map sender (messages c1) = map sender (messages c)
     \<and> map content (messages c1) = map content (messages c)
     \<and> map timestamp (messages c1) = map timestamp (messages c)"
    by (simp add: c1 mark_read_fields)
  from c st info fr(1) written later ls fr(2) others fields show ?thesis
    by (intro exI [of _ c] conjI) (erule conjE | assumption)+
qed

theorem get_conversation_writes_item_info_witness:
  "get_conversation_api (\<lambda>d. d) asked C1 ''alice'' = (Inr opened_convo, opened)
     \<and> map_of (conversations (data opened)) C1 = Some opened_convo
     \<and> item_info opened_convo = Some (Some chair_listing)
     \<and> disk opened = Some (marked_store (data asked) C1 ''alice'')
     \<and> \<not> has_info (marked_store (data asked) C1 ''alice'') C1
     \<and> trace_ok (\<lambda>d. d) opened reply
     \<and> has_info (data (run (\<lambda>d. d) opened reply)) C1
     \<and> disk (run (\<lambda>d. d) opened reply) = Some (data (run (\<lambda>d. d) opened reply))"
proof -
  have h: "get_conversation_api (\<lambda>d. d) asked C1 ''alice'' = (Inr opened_convo, opened)"
    by code_simp
  from get_conversation_writes_item_info [OF h]
  have A: "map_of (conversations (data opened)) C1 = Some opened_convo
     \<and> disk opened = Some (marked_store (data asked) C1 ''alice'')
     \<and> (\<forall>xs. trace_ok (\<lambda>d. d) opened xs \<longrightarrow>
            has_info (data (run (\<lambda>d. d) opened xs)) C1
            \<and> (disk (run (\<lambda>d. d) opened xs) = disk opened
                \<or> (\<exists>d. disk (run (\<lambda>d. d) opened xs) = Some d \<and> has_info d C1)))"
    by (elim exE conjE) (intro conjI, assumption+)
  have i: "item_info opened_convo = Some (Some chair_listing)"
    by code_simp
  have n: "\<not> has_info (marked_store (data asked) C1 ''alice'') C1"
    by code_simp
  have t: "trace_ok (\<lambda>d. d) opened reply"
    by code_simp
  from A [THEN conjunct2, THEN conjunct2, THEN spec, THEN mp, OF t, THEN conjunct1]
  have k: "has_info (data (run (\<lambda>d. d) opened reply)) C1" .
  have w: "disk (run (\<lambda>d. d) opened reply) = Some (data (run (\<lambda>d. d) opened reply))"
    by code_simp
  from h A [THEN conjunct1] i A [THEN conjunct2, THEN conjunct1] n t k w show ?thesis
    by (intro conjI)
qed

end
